theory Spec2Isabelle
  imports Complex_Main
begin

section \<open>The DWT kernel of \<^verbatim>\<open>seal/util/fft.h\<close>\<close>

text \<open>
  The header declares the interface \<^verbatim>\<open>Arithmetic\<close> (six ring operations, bodies supplied by
  the instantiating code) and the class \<^verbatim>\<open>DWTHandler\<close> with the two in-place transforms
  \<^verbatim>\<open>transform_to_rev\<close> and \<^verbatim>\<open>transform_from_rev\<close>. The arithmetic is a record of functions;
  the value buffer is a list that is passed in and returned; the root table and the scalar are
  \<^verbatim>\<open>const\<close> parameters and stay parameters here.
\<close>

subsection \<open>Undefined behaviour as error values\<close>

text \<open>
  The kernel checks nothing. What C++ leaves undefined is an error value of the model:
  a shift by a negative amount or by 64 or more (\<^verbatim>\<open>std::size_t\<close> has 64 bits), a read or
  write of \<^verbatim>\<open>values\<close> outside the buffer, a read of \<^verbatim>\<open>roots\<close> outside the table.
\<close>

datatype error = BadShift int | ValueIndex nat | RootIndex nat

fun and_then :: "error + 'a \<Rightarrow> ('a \<Rightarrow> error + 'b) \<Rightarrow> error + 'b" where
  "and_then (Inl e) f = Inl e"
| "and_then (Inr x) f = f x"

text \<open>\<^verbatim>\<open>x << k\<close> on \<^verbatim>\<open>std::size_t\<close>: defined for \<open>0 \<le> k < 64\<close>, the result wraps modulo \<open>2^64\<close>.\<close>

definition shl :: "nat \<Rightarrow> int \<Rightarrow> error + nat" where
  "shl x k = (if 0 \<le> k \<and> k < 64 then Inr ((x * 2 ^ nat k) mod 2 ^ 64) else Inl (BadShift k))"

text \<open>\<^verbatim>\<open>a + b\<close> on \<^verbatim>\<open>std::size_t\<close>.\<close>

definition size_add :: "nat \<Rightarrow> nat \<Rightarrow> nat" where
  "size_add a b = (a + b) mod 2 ^ 64"

definition read_value :: "'v list \<Rightarrow> nat \<Rightarrow> error + 'v" where
  "read_value vs j = (if j < length vs then Inr (vs ! j) else Inl (ValueIndex j))"

definition write_value :: "'v list \<Rightarrow> nat \<Rightarrow> 'v \<Rightarrow> error + 'v list" where
  "write_value vs j x = (if j < length vs then Inr (vs[j := x]) else Inl (ValueIndex j))"

definition read_root :: "'r list \<Rightarrow> nat \<Rightarrow> error + 'r" where
  "read_root roots k = (if k < length roots then Inr (roots ! k) else Inl (RootIndex k))"

subsection \<open>The arithmetic strategy\<close>

text \<open>Lines 22-37: the six operations over the value, root and scalar types.\<close>

record ('v, 'r, 's) arithmetic =
  add :: "'v \<Rightarrow> 'v \<Rightarrow> 'v"
  sub :: "'v \<Rightarrow> 'v \<Rightarrow> 'v"
  mul_root :: "'v \<Rightarrow> 'r \<Rightarrow> 'v"
  mul_scalar :: "'v \<Rightarrow> 's \<Rightarrow> 'v"
  mul_root_scalar :: "'r \<Rightarrow> 's \<Rightarrow> 'r"
  guard :: "'v \<Rightarrow> 'v"

subsection \<open>State of one call\<close>

text \<open>
  \<open>vals\<close> is the caller's buffer \<^verbatim>\<open>values\<close> and \<open>root_index\<close> the local read cursor.
  \<open>root_reads\<close> is instrumentation: one entry \<open>(log_m, i, k)\<close> for each read \<^verbatim>\<open>roots[k]\<close>, made by group
  \<open>i\<close> of stage \<open>log_m\<close>, in the order of the reads.
\<close>

record 'v dwt_state =
  vals :: "'v list"
  root_index :: nat
  root_reads :: "(int \<times> nat \<times> nat) list"

subsection \<open>Loops\<close>

text \<open>
  \<^verbatim>\<open>for (std::size_t j = lo; j < hi; j++) body\<close>. The increment cannot wrap: \<open>j < hi\<close> and
  \<open>hi\<close> is a \<^verbatim>\<open>std::size_t\<close>.
\<close>

function for_range :: "nat \<Rightarrow> nat \<Rightarrow> (nat \<Rightarrow> 'st \<Rightarrow> error + 'st) \<Rightarrow> 'st \<Rightarrow> error + 'st" where
  "for_range lo hi body s =
     (if lo < hi
      then (case body lo s of Inl e \<Rightarrow> Inl e | Inr s' \<Rightarrow> for_range (lo + 1) hi body s')
      else Inr s)"
  by pat_completeness auto
termination
  by (relation "measure (\<lambda>(lo, hi, body, s). hi - lo)") auto

declare for_range.simps [simp del]

subsection \<open>Butterflies\<close>

text \<open>
  The four loop bodies, as functions of the two values read, \<^verbatim>\<open>values[j]\<close> and
  \<^verbatim>\<open>values[j + gap]\<close>, to the two values written back to the same places.
\<close>

text \<open>Lines 106-109 and 143-146.\<close>

definition butterfly_to :: "('v, 'r, 's) arithmetic \<Rightarrow> 'r \<Rightarrow> 'v \<Rightarrow> 'v \<Rightarrow> 'v \<times> 'v" where
  "butterfly_to A r x y =
     (let u = guard A x;
          v = mul_root A y r
      in (add A u v, sub A u v))"

text \<open>Lines 121 and 125-128: the scalar is multiplied into the root and into \<open>u\<close>.\<close>

definition butterfly_to_scaled ::
  "('v, 'r, 's) arithmetic \<Rightarrow> 's \<Rightarrow> 'r \<Rightarrow> 'v \<Rightarrow> 'v \<Rightarrow> 'v \<times> 'v" where
  "butterfly_to_scaled A s r x y =
     (let scaled_r = mul_root_scalar A r s;
          u = mul_scalar A (guard A x) s;
          v = mul_root A y scaled_r
      in (add A u v, sub A u v))"

text \<open>Lines 174-177 and 211-214.\<close>

definition butterfly_from :: "('v, 'r, 's) arithmetic \<Rightarrow> 'r \<Rightarrow> 'v \<Rightarrow> 'v \<Rightarrow> 'v \<times> 'v" where
  "butterfly_from A r x y =
     (let u = x;
          v = y
      in (guard A (add A u v), mul_root A (sub A u v) r))"

text \<open>Lines 189 and 193-196: here \<open>u\<close> is guarded when it is read.\<close>

definition butterfly_from_scaled ::
  "('v, 'r, 's) arithmetic \<Rightarrow> 's \<Rightarrow> 'r \<Rightarrow> 'v \<Rightarrow> 'v \<Rightarrow> 'v \<times> 'v" where
  "butterfly_from_scaled A s r x y =
     (let scaled_r = mul_root_scalar A r s;
          u = guard A x;
          v = y
      in (mul_scalar A (guard A (add A u v)) s, mul_root A (sub A u v) scaled_r))"

text \<open>
  One iteration of a \<open>j\<close> loop: both reads, then the write to \<^verbatim>\<open>values[j]\<close>, then the write
  to \<^verbatim>\<open>values[j + gap]\<close>.
\<close>

definition butterfly_at :: "('v \<Rightarrow> 'v \<Rightarrow> 'v \<times> 'v) \<Rightarrow> nat \<Rightarrow> nat \<Rightarrow> 'v list \<Rightarrow> error + 'v list" where
  "butterfly_at f gap j vs =
     and_then (read_value vs j) (\<lambda>x.
     and_then (read_value vs (size_add j gap)) (\<lambda>y.
     and_then (write_value vs j (fst (f x y))) (\<lambda>vs'.
     write_value vs' (size_add j gap) (snd (f x y)))))"

subsection \<open>Stages\<close>

text \<open>
  The body of an \<open>i\<close> loop. All six \<open>i\<close> loops of the header have this shape; they differ in
  the butterfly \<open>bf\<close> and in whether the cursor is advanced (\<^verbatim>\<open>roots[root_index++]\<close>, lines
  102, 120, 139, 170) or not (\<^verbatim>\<open>roots[root_index]\<close>, lines 188, 207).
\<close>

definition dwt_group ::
  "'r list \<Rightarrow> int \<Rightarrow> int \<Rightarrow> bool \<Rightarrow> ('r \<Rightarrow> 'v \<Rightarrow> 'v \<Rightarrow> 'v \<times> 'v) \<Rightarrow> nat \<Rightarrow> nat \<Rightarrow>
   'v dwt_state \<Rightarrow> error + 'v dwt_state" where
  "dwt_group roots log_n log_m advance bf gap i st =
     and_then (read_root roots (root_index st)) (\<lambda>r.
     let st1 = st\<lparr>root_index := (if advance then size_add (root_index st) 1 else root_index st),
                  root_reads := root_reads st @ [(log_m, i, root_index st)]\<rparr>
     in and_then (shl i (log_n - log_m)) (\<lambda>offset.
        and_then (for_range offset (size_add offset gap) (butterfly_at (bf r) gap) (vals st1))
          (\<lambda>vs. Inr (st1\<lparr>vals := vs\<rparr>))))"

text \<open>One stage: \<open>m\<close> and \<open>gap\<close> as in lines 98-99, then the \<open>i\<close> loop.\<close>

definition dwt_stage ::
  "'r list \<Rightarrow> int \<Rightarrow> int \<Rightarrow> bool \<Rightarrow> ('r \<Rightarrow> 'v \<Rightarrow> 'v \<Rightarrow> 'v \<times> 'v) \<Rightarrow>
   'v dwt_state \<Rightarrow> error + 'v dwt_state" where
  "dwt_stage roots log_n log_m advance bf st =
     and_then (shl 1 log_m) (\<lambda>m.
     and_then (shl 1 (log_n - log_m - 1)) (\<lambda>gap.
     for_range 0 m (dwt_group roots log_n log_m advance bf gap) st))"

subsection \<open>\<^verbatim>\<open>transform_to_rev\<close>\<close>

text \<open>
  \<open>log_n\<close> is a C++ \<^verbatim>\<open>int\<close>, modelled by a mathematical integer: the differences the code
  forms from it leave the \<^verbatim>\<open>int\<close> range only for \<open>log_n = INT_MIN\<close>, where the model reports
  the negative shift that follows.
\<close>

text \<open>Lines 96-112: \<^verbatim>\<open>for (int log_m = 0; log_m < log_n - 1; log_m++)\<close>.\<close>

function to_rev_stages ::
  "('v, 'r, 's) arithmetic \<Rightarrow> int \<Rightarrow> 'r list \<Rightarrow> int \<Rightarrow> 'v dwt_state \<Rightarrow> error + 'v dwt_state" where
  "to_rev_stages A log_n roots log_m st =
     (if log_m < log_n - 1
      then (case dwt_stage roots log_n log_m True (butterfly_to A) st of
              Inl e \<Rightarrow> Inl e
            | Inr st' \<Rightarrow> to_rev_stages A log_n roots (log_m + 1) st')
      else Inr st)"
  by pat_completeness auto
termination
  by (relation "measure (\<lambda>(A, log_n, roots, log_m, st). nat (log_n - 1 - log_m))") auto

declare to_rev_stages.simps [simp del]

text \<open>Lines 93-150.\<close>

definition transform_to_rev ::
  "('v, 'r, 's) arithmetic \<Rightarrow> 'v list \<Rightarrow> int \<Rightarrow> 'r list \<Rightarrow> 's option \<Rightarrow> error + 'v dwt_state" where
  "transform_to_rev A vs log_n roots scalar =
     and_then (to_rev_stages A log_n roots 0 \<lparr>vals = vs, root_index = 1, root_reads = []\<rparr>)
       (\<lambda>st. case scalar of
           Some s \<Rightarrow> dwt_stage roots log_n (log_n - 1) True (butterfly_to_scaled A s) st
         | None \<Rightarrow> dwt_stage roots log_n (log_n - 1) True (butterfly_to A) st)"

subsection \<open>\<^verbatim>\<open>transform_from_rev\<close>\<close>

text \<open>Lines 164-180: \<^verbatim>\<open>for (int log_m = log_n - 1; log_m > 0; log_m--)\<close>.\<close>

function from_rev_stages ::
  "('v, 'r, 's) arithmetic \<Rightarrow> int \<Rightarrow> 'r list \<Rightarrow> int \<Rightarrow> 'v dwt_state \<Rightarrow> error + 'v dwt_state" where
  "from_rev_stages A log_n roots log_m st =
     (if log_m > 0
      then (case dwt_stage roots log_n log_m True (butterfly_from A) st of
              Inl e \<Rightarrow> Inl e
            | Inr st' \<Rightarrow> from_rev_stages A log_n roots (log_m - 1) st')
      else Inr st)"
  by pat_completeness auto
termination
  by (relation "measure (\<lambda>(A, log_n, roots, log_m, st). nat log_m)") auto

declare from_rev_stages.simps [simp del]

text \<open>Lines 161-218.\<close>

definition transform_from_rev ::
  "('v, 'r, 's) arithmetic \<Rightarrow> 'v list \<Rightarrow> int \<Rightarrow> 'r list \<Rightarrow> 's option \<Rightarrow> error + 'v dwt_state" where
  "transform_from_rev A vs log_n roots scalar =
     and_then (from_rev_stages A log_n roots (log_n - 1)
                 \<lparr>vals = vs, root_index = 1, root_reads = []\<rparr>)
       (\<lambda>st. case scalar of
           Some s \<Rightarrow> dwt_stage roots log_n 0 False (butterfly_from_scaled A s) st
         | None \<Rightarrow> dwt_stage roots log_n 0 False (butterfly_from A) st)"

section \<open>The transforms as functions on lists\<close>

text \<open>
  What the loops compute when every access is in range, written without state and without
  errors. The lemmas of the next sections show that the kernel returns these lists.

  \<open>block_pure f offset gap cnt\<close> applies the butterfly \<open>f\<close> to the pairs \<open>(j, j + gap)\<close> for the
  first \<open>cnt\<close> indices \<open>j\<close> from \<open>offset\<close>; \<open>stage_pure fg gap m\<close> applies the butterfly \<open>fg g\<close>
  to all \<open>gap\<close> pairs of group \<open>g\<close>, for the groups \<open>g < m\<close>.
\<close>

definition block_pure :: "('v \<Rightarrow> 'v \<Rightarrow> 'v \<times> 'v) \<Rightarrow> nat \<Rightarrow> nat \<Rightarrow> nat \<Rightarrow> 'v list \<Rightarrow> 'v list" where
  "block_pure f offset gap cnt ws =
     map (\<lambda>p. if offset \<le> p \<and> p < offset + cnt then fst (f (ws ! p) (ws ! (p + gap)))
              else if offset + gap \<le> p \<and> p < offset + gap + cnt
                   then snd (f (ws ! (p - gap)) (ws ! p))
                   else ws ! p) [0..<length ws]"

definition stage_pure :: "(nat \<Rightarrow> 'v \<Rightarrow> 'v \<Rightarrow> 'v \<times> 'v) \<Rightarrow> nat \<Rightarrow> nat \<Rightarrow> 'v list \<Rightarrow> 'v list" where
  "stage_pure fg gap m vs =
     map (\<lambda>p. if p < m * (2 * gap)
              then (if p mod (2 * gap) < gap
                    then fst (fg (p div (2 * gap)) (vs ! p) (vs ! (p + gap)))
                    else snd (fg (p div (2 * gap)) (vs ! (p - gap)) (vs ! p)))
              else vs ! p) [0..<length vs]"

definition fwd_stage_pure ::
  "('r \<Rightarrow> 'v \<Rightarrow> 'v \<Rightarrow> 'v \<times> 'v) \<Rightarrow> 'r list \<Rightarrow> nat \<Rightarrow> nat \<Rightarrow> 'v list \<Rightarrow> 'v list" where
  "fwd_stage_pure bf roots L k vs =
     stage_pure (\<lambda>g. bf (roots ! (2 ^ k + g))) (2 ^ (L - k - 1)) (2 ^ k) vs"

fun fwd_pure :: "('v, 'r, 's) arithmetic \<Rightarrow> 'r list \<Rightarrow> nat \<Rightarrow> nat \<Rightarrow> 'v list \<Rightarrow> 'v list" where
  "fwd_pure A roots L 0 vs = vs"
| "fwd_pure A roots L (Suc k) vs =
     fwd_stage_pure (butterfly_to A) roots L k (fwd_pure A roots L k vs)"

fun fwd_reads :: "nat \<Rightarrow> (int \<times> nat \<times> nat) list" where
  "fwd_reads 0 = []"
| "fwd_reads (Suc k) = fwd_reads k @ map (\<lambda>g. (int k, g, 2 ^ k + g)) [0..<2 ^ k]"

definition inv_cursor :: "nat \<Rightarrow> nat \<Rightarrow> nat" where
  "inv_cursor L k = 2 ^ L - 2 ^ Suc k + 1"

definition inv_stage_pure ::
  "('r \<Rightarrow> 'v \<Rightarrow> 'v \<Rightarrow> 'v \<times> 'v) \<Rightarrow> 'r list \<Rightarrow> nat \<Rightarrow> nat \<Rightarrow> 'v list \<Rightarrow> 'v list" where
  "inv_stage_pure bf roots L k vs =
     stage_pure (\<lambda>g. bf (roots ! (inv_cursor L k + g))) (2 ^ (L - k - 1)) (2 ^ k) vs"

fun inv_pure :: "('v, 'r, 's) arithmetic \<Rightarrow> 'r list \<Rightarrow> nat \<Rightarrow> nat \<Rightarrow> 'v list \<Rightarrow> 'v list" where
  "inv_pure A roots L 0 vs = vs"
| "inv_pure A roots L (Suc d) vs =
     inv_stage_pure (butterfly_from A) roots L (L - 1 - d) (inv_pure A roots L d vs)"

fun inv_reads :: "nat \<Rightarrow> nat \<Rightarrow> (int \<times> nat \<times> nat) list" where
  "inv_reads L 0 = []"
| "inv_reads L (Suc d) =
     inv_reads L d @
     map (\<lambda>g. (int (L - 1 - d), g, inv_cursor L (L - 1 - d) + g)) [0..<2 ^ (L - 1 - d)]"

definition to_rev_pure ::
  "('v, 'r, 's) arithmetic \<Rightarrow> 'r list \<Rightarrow> nat \<Rightarrow> 's option \<Rightarrow> 'v list \<Rightarrow> 'v list" where
  "to_rev_pure A roots L scalar vs =
     fwd_stage_pure (case scalar of Some s \<Rightarrow> butterfly_to_scaled A s | None \<Rightarrow> butterfly_to A)
       roots L (L - 1) (fwd_pure A roots L (L - 1) vs)"

definition from_rev_pure ::
  "('v, 'r, 's) arithmetic \<Rightarrow> 'r list \<Rightarrow> nat \<Rightarrow> 's option \<Rightarrow> 'v list \<Rightarrow> 'v list" where
  "from_rev_pure A roots L scalar vs =
     inv_stage_pure (case scalar of Some s \<Rightarrow> butterfly_from_scaled A s | None \<Rightarrow> butterfly_from A)
       roots L 0 (inv_pure A roots L (L - 1) vs)"

section \<open>Calls and their outcomes\<close>

text \<open>
  The caller's contract: \<open>n = 2^log_n\<close>, a buffer and a root table of at least \<open>n\<close> elements.
  A \<^verbatim>\<open>std::size_t\<close> of 64 bits addresses such a buffer only for \<open>log_n \<le> 63\<close>.
\<close>

definition sized_call :: "'v list \<Rightarrow> int \<Rightarrow> 'r list \<Rightarrow> bool" where
  "sized_call vs log_n roots \<longleftrightarrow>
     log_n \<le> 63 \<and> 2 ^ nat log_n \<le> length vs \<and> 2 ^ nat log_n \<le> length roots"

text \<open>
  \<open>outcome log_n P res\<close>: for \<open>log_n \<ge> 1\<close> the call returned and \<open>P\<close> holds of the final state;
  for \<open>log_n \<le> 0\<close> the call stopped at the shift by \<open>log_n - 1\<close> that computes the parameters
  of its last stage (line 116 or 135 of \<open>transform_to_rev\<close>, line 185 or 204 of
  \<open>transform_from_rev\<close>), before any access to the buffer or the table.
\<close>

definition outcome :: "int \<Rightarrow> ('v dwt_state \<Rightarrow> bool) \<Rightarrow> error + 'v dwt_state \<Rightarrow> bool" where
  "outcome log_n P res =
     (case res of
        Inr st \<Rightarrow> 1 \<le> log_n \<and> P st
      | Inl e \<Rightarrow> log_n \<le> 0 \<and> e = BadShift (log_n - 1))"

section \<open>The algorithms as the specification words them\<close>

text \<open>
  A second description of the two transforms without a scalar, written from the text of the
  specification and not from the header, to be compared with the embedding above: the loops
  are iterations over lists of stages, groups and indices, every stage is the same stage,
  and the butterflies are written with their reads and writes. Shifts, sums and accesses are
  those of the machine, as above.
\<close>

primrec for_each :: "'a list \<Rightarrow> ('a \<Rightarrow> 'st \<Rightarrow> error + 'st) \<Rightarrow> 'st \<Rightarrow> error + 'st" where
  "for_each [] body s = Inr s"
| "for_each (x # xs) body s = and_then (body x s) (for_each xs body)"

text \<open>
  \<open>u = guard(values[j])\<close>, \<open>v = mul_root(values[j + gap], r)\<close>, \<open>values[j] = add(u, v)\<close>,
  \<open>values[j + gap] = sub(u, v)\<close>.
\<close>

definition spec_to_rev_butterfly ::
  "('v, 'r, 's) arithmetic \<Rightarrow> 'r \<Rightarrow> nat \<Rightarrow> nat \<Rightarrow> 'v list \<Rightarrow> error + 'v list" where
  "spec_to_rev_butterfly A r gap j vs =
     and_then (read_value vs j) (\<lambda>a.
     and_then (read_value vs (size_add j gap)) (\<lambda>b.
     let u = guard A a;
         v = mul_root A b r
     in and_then (write_value vs j (add A u v)) (\<lambda>vs'.
        write_value vs' (size_add j gap) (sub A u v))))"

text \<open>
  \<open>u = values[j]\<close>, \<open>v = values[j + gap]\<close>, \<open>values[j] = guard(add(u, v))\<close>,
  \<open>values[j + gap] = mul_root(sub(u, v), r)\<close>.
\<close>

definition spec_from_rev_butterfly ::
  "('v, 'r, 's) arithmetic \<Rightarrow> 'r \<Rightarrow> nat \<Rightarrow> nat \<Rightarrow> 'v list \<Rightarrow> error + 'v list" where
  "spec_from_rev_butterfly A r gap j vs =
     and_then (read_value vs j) (\<lambda>u.
     and_then (read_value vs (size_add j gap)) (\<lambda>v.
     and_then (write_value vs j (guard A (add A u v))) (\<lambda>vs'.
     write_value vs' (size_add j gap) (mul_root A (sub A u v) r))))"

text \<open>
  Stage \<open>log_m\<close>: \<open>m = 2^log_m\<close> groups; group \<open>i\<close> reads the next root at the cursor, which
  moves on by one, and applies the butterfly at every \<open>j\<close> in \<open>[offset, offset + gap)\<close> with
  \<open>offset = i << (log_n - log_m)\<close> and \<open>gap = 1 << (log_n - log_m - 1)\<close>.
\<close>

definition spec_stage ::
  "('r \<Rightarrow> nat \<Rightarrow> nat \<Rightarrow> 'v list \<Rightarrow> error + 'v list) \<Rightarrow> int \<Rightarrow> 'r list \<Rightarrow> int \<Rightarrow>
   'v dwt_state \<Rightarrow> error + 'v dwt_state" where
  "spec_stage butterfly log_n roots log_m st0 =
     and_then (shl 1 log_m) (\<lambda>m.
     and_then (shl 1 (log_n - log_m - 1)) (\<lambda>gap.
     for_each [0..<m] (\<lambda>i st.
       and_then (read_root roots (root_index st)) (\<lambda>r.
       and_then (shl i (log_n - log_m)) (\<lambda>offset.
       and_then (for_each [offset..<size_add offset gap] (butterfly r gap) (vals st)) (\<lambda>vs.
         Inr \<lparr>vals = vs,
              root_index = size_add (root_index st) 1,
              root_reads = root_reads st @ [(log_m, i, root_index st)]\<rparr>)))) st0))"

text \<open>Forward: the stages \<open>log_m = 0, \<dots>, log_n - 1\<close>, the cursor starting at \<open>1\<close>.\<close>

definition spec_to_rev ::
  "('v, 'r, 's) arithmetic \<Rightarrow> 'v list \<Rightarrow> int \<Rightarrow> 'r list \<Rightarrow> error + 'v dwt_state" where
  "spec_to_rev A vs log_n roots =
     for_each (map int [0..<nat log_n]) (spec_stage (spec_to_rev_butterfly A) log_n roots)
       \<lparr>vals = vs, root_index = 1, root_reads = []\<rparr>"

text \<open>
  Inverse: the stages \<open>log_m = log_n - 1, \<dots>, 1\<close>, then the final stage at \<open>log_m = 0\<close>, whose
  one group has \<open>gap = 1 << (log_n - 1) = n/2\<close> and pairs the two halves of the buffer.
\<close>

definition spec_from_rev ::
  "('v, 'r, 's) arithmetic \<Rightarrow> 'v list \<Rightarrow> int \<Rightarrow> 'r list \<Rightarrow> error + 'v dwt_state" where
  "spec_from_rev A vs log_n roots =
     and_then
       (for_each (map int (rev [1..<nat log_n])) (spec_stage (spec_from_rev_butterfly A) log_n roots)
          \<lparr>vals = vs, root_index = 1, root_reads = []\<rparr>)
       (spec_stage (spec_from_rev_butterfly A) log_n roots 0)"

text \<open>
  What a caller observes of a call: the error, or the buffer and the reads of the root table.
  The cursor is a local variable of the call.
\<close>

definition observed :: "error + 'v dwt_state \<Rightarrow> error + 'v list \<times> (int \<times> nat \<times> nat) list" where
  "observed res = map_sum id (\<lambda>st. (vals st, root_reads st)) res"

section \<open>Scaling, rings and root tables\<close>

text \<open>An elementwise \<open>mul_scalar\<close> of every element of the buffer by \<open>s\<close>, as a separate pass.\<close>

definition scale_values :: "('v, 'r, 's) arithmetic \<Rightarrow> 's \<Rightarrow> 'v dwt_state \<Rightarrow> 'v dwt_state" where
  "scale_values A s st = st\<lparr>vals := map (\<lambda>x. mul_scalar A x s) (vals st)\<rparr>"

text \<open>
  The header declares the interface only; its instances are supplied by the code that uses
  the kernel. This instance is the exact arithmetic of a commutative ring, whose values,
  roots and scalars are the ring's elements: ring addition, subtraction and multiplication,
  and a \<open>guard\<close> that is the identity.
\<close>

definition ring_arith :: "('a::comm_ring_1, 'a, 'a) arithmetic" where
  "ring_arith =
     \<lparr>add = (\<lambda>a b. a + b), sub = (\<lambda>a b. a - b), mul_root = (\<lambda>a r. a * r),
      mul_scalar = (\<lambda>a s. a * s), mul_root_scalar = (\<lambda>r s. r * s), guard = (\<lambda>a. a)\<rparr>"

text \<open>
  An arithmetic implements a commutative ring when its values, roots and scalars can be read
  as ring elements (by \<open>val\<close>, \<open>rt\<close>, \<open>sc\<close>) such that the six operations are the ring's;
  \<open>guard\<close> may change the representative but not the element. For modular integers with
  lazy reduction \<open>val\<close> takes a representative to its residue class.
\<close>

definition ring_view ::
  "('v, 'r, 's) arithmetic \<Rightarrow> ('v \<Rightarrow> 'a::comm_ring_1) \<Rightarrow> ('r \<Rightarrow> 'a) \<Rightarrow> ('s \<Rightarrow> 'a) \<Rightarrow> bool" where
  "ring_view A val rt sc \<longleftrightarrow>
     (\<forall>a b. val (add A a b) = val a + val b) \<and>
     (\<forall>a b. val (sub A a b) = val a - val b) \<and>
     (\<forall>a r. val (mul_root A a r) = val a * rt r) \<and>
     (\<forall>a s. val (mul_scalar A a s) = val a * sc s) \<and>
     (\<forall>r s. rt (mul_root_scalar A r s) = rt r * sc s) \<and>
     (\<forall>a. val (guard A a) = val a)"

text \<open>
  Forward and inverse root tables that belong together, as ring elements: group \<open>i\<close> of stage
  \<open>k\<close> reads \<open>frs ! (2^k + i)\<close> in the forward transform and \<open>irs ! (inv_cursor L k + i)\<close> in
  the inverse transform, and the second is the inverse of the first.
\<close>

definition inverse_tables :: "nat \<Rightarrow> 'a::comm_ring_1 list \<Rightarrow> 'a list \<Rightarrow> bool" where
  "inverse_tables L frs irs \<longleftrightarrow>
     (\<forall>k<L. \<forall>i<2 ^ k. irs ! (inv_cursor L k + i) * frs ! (2 ^ k + i) = 1)"

section \<open>An arithmetic with lazy reduction\<close>

text \<open>
  An instance of the interface, for running the kernel on concrete inputs: the integers as
  representatives of residues modulo \<open>q\<close>, where only \<open>guard\<close> reduces.
\<close>

definition lazy_arith :: "int \<Rightarrow> (int, int, int) arithmetic" where
  "lazy_arith q =
     \<lparr>add = (\<lambda>a b. a + b), sub = (\<lambda>a b. a - b), mul_root = (\<lambda>a r. a * r),
      mul_scalar = (\<lambda>a s. a * s), mul_root_scalar = (\<lambda>r s. r * s), guard = (\<lambda>a. a mod q)\<rparr>"

section \<open>Evaluation on small buffers\<close>

lemmas run_simps =
  transform_to_rev_def transform_from_rev_def to_rev_stages.simps from_rev_stages.simps
  dwt_stage_def dwt_group_def shl_def size_add_def for_range.simps butterfly_at_def
  read_value_def write_value_def read_root_def butterfly_to_def butterfly_to_scaled_def
  butterfly_from_def butterfly_from_scaled_def Let_def lazy_arith_def ring_arith_def

section \<open>The loops return the closed forms\<close>

lemma size_add_ok: "a + b < 2 ^ 64 \<Longrightarrow> size_add a b = a + b"
  by (simp add: size_add_def)

lemma for_range_done: "hi \<le> lo \<Longrightarrow> for_range lo hi body s = Inr s"
  by (simp add: for_range.simps)

lemma for_range_step:
  "lo < hi \<Longrightarrow> body lo s = Inr s' \<Longrightarrow> for_range lo hi body s = for_range (Suc lo) hi body s'"
  by (subst for_range.simps) simp

lemma for_range_total_aux:
  assumes step: "\<And>i t. lo0 \<le> i \<Longrightarrow> i < hi \<Longrightarrow> P i t \<Longrightarrow> \<exists>t'. body i t = Inr t' \<and> P (Suc i) t'"
  shows "lo0 \<le> lo \<Longrightarrow> lo \<le> hi \<Longrightarrow> P lo s \<Longrightarrow> \<exists>s'. for_range lo hi body s = Inr s' \<and> P hi s'"
proof (induction "hi - lo" arbitrary: lo s)
  case 0
  then show ?case by (simp add: for_range_done)
next
  case (Suc d)
  then have lt: "lo < hi" by simp
  from step [OF Suc.prems(1) lt Suc.prems(3)]
  obtain t' where t': "body lo s = Inr t'" "P (Suc lo) t'"
    by auto
  have "d = hi - Suc lo" using Suc.hyps(2) by simp
  from Suc.hyps(1) [OF this _ _ t'(2)] lt Suc.prems(1)
  obtain s' where "for_range (Suc lo) hi body t' = Inr s'" "P hi s'"
    by auto
  then show ?case using for_range_step [of lo hi body s t'] lt t'(1) by simp
qed

lemma for_range_total:
  assumes "lo \<le> hi" and "P lo s"
    and "\<And>i t. lo \<le> i \<Longrightarrow> i < hi \<Longrightarrow> P i t \<Longrightarrow> \<exists>t'. body i t = Inr t' \<and> P (Suc i) t'"
  shows "\<exists>s'. for_range lo hi body s = Inr s' \<and> P hi s'"
  using for_range_total_aux [of lo hi P body lo s] assms by blast

lemma length_block_pure [simp]: "length (block_pure f offset gap cnt ws) = length ws"
  by (simp add: block_pure_def)

lemma length_stage_pure [simp]: "length (stage_pure fg gap m vs) = length vs"
  by (simp add: stage_pure_def)

lemma block_pure_0 [simp]: "block_pure f offset gap 0 ws = ws"
  by (intro nth_equalityI) (auto simp: block_pure_def)

lemma butterfly_at_block:
  assumes "cnt < gap" "offset + 2 * gap \<le> length ws" "offset + 2 * gap \<le> 2 ^ 64"
  shows "butterfly_at f gap (offset + cnt) (block_pure f offset gap cnt ws) =
         Inr (block_pure f offset gap (Suc cnt) ws)"
proof -
  let ?b = "block_pure f offset gap cnt ws"
  have lt: "offset + cnt + gap < 2 ^ 64" using assms by simp
  have r1: "?b ! (offset + cnt) = ws ! (offset + cnt)"
    using assms by (simp add: block_pure_def)
  have r2: "?b ! (offset + cnt + gap) = ws ! (offset + cnt + gap)"
    using assms by (simp add: block_pure_def)
  have "(?b[offset + cnt := fst (f (ws ! (offset + cnt)) (ws ! (offset + cnt + gap)))])
          [offset + cnt + gap := snd (f (ws ! (offset + cnt)) (ws ! (offset + cnt + gap)))] =
        block_pure f offset gap (Suc cnt) ws"
    using assms
    by (intro nth_equalityI) (auto simp: block_pure_def nth_list_update)
  then show ?thesis
    using assms lt r1 r2
    by (simp add: butterfly_at_def read_value_def write_value_def size_add_ok)
qed

lemma inner_loop:
  assumes "0 < gap" "offset + 2 * gap \<le> length ws" "offset + 2 * gap \<le> 2 ^ 64"
  shows "for_range offset (size_add offset gap) (butterfly_at f gap) ws =
         Inr (block_pure f offset gap gap ws)"
proof -
  have sa: "size_add offset gap = offset + gap" using assms by (simp add: size_add_ok)
  have "\<exists>s'. for_range offset (offset + gap) (butterfly_at f gap) ws = Inr s' \<and>
          s' = block_pure f offset gap (offset + gap - offset) ws"
  proof (rule for_range_total [where P = "\<lambda>j t. t = block_pure f offset gap (j - offset) ws"])
    fix i t
    assume "offset \<le> i" "i < offset + gap" "t = block_pure f offset gap (i - offset) ws"
    then show "\<exists>t'. butterfly_at f gap i t = Inr t' \<and>
                  t' = block_pure f offset gap (Suc i - offset) ws"
      using butterfly_at_block [of "i - offset" gap offset ws f] assms
      by (simp add: Suc_diff_le)
  qed simp_all
  then show ?thesis using sa by simp
qed

lemma block_pure_nth:
  "p < length ws \<Longrightarrow> block_pure f offset gap cnt ws ! p =
     (if offset \<le> p \<and> p < offset + cnt then fst (f (ws ! p) (ws ! (p + gap)))
      else if offset + gap \<le> p \<and> p < offset + gap + cnt
           then snd (f (ws ! (p - gap)) (ws ! p))
           else ws ! p)"
  by (simp add: block_pure_def)

lemma stage_pure_nth:
  "p < length vs \<Longrightarrow> stage_pure fg gap m vs ! p =
     (if p < m * (2 * gap)
      then (if p mod (2 * gap) < gap
            then fst (fg (p div (2 * gap)) (vs ! p) (vs ! (p + gap)))
            else snd (fg (p div (2 * gap)) (vs ! (p - gap)) (vs ! p)))
      else vs ! p)"
  by (simp add: stage_pure_def)

lemma pow2_lt_64: "L \<le> 63 \<Longrightarrow> (2::nat) ^ L < 2 ^ 64"
  by (rule power_strict_increasing) simp_all

lemma block_index:
  fixes p w i :: nat
  assumes "i * w \<le> p" "p < i * w + w"
  shows "p div w = i" "p mod w = p - i * w"
proof -
  show d: "p div w = i"
    using assms by (intro div_nat_eqI) (simp_all add: mult.commute)
  show "p mod w = p - i * w"
    using d by (metis minus_div_mult_eq_mod)
qed

lemma block_stage:
  assumes "0 < gap" "i * (2 * gap) + 2 * gap \<le> length vs"
  shows "block_pure (fg i) (i * (2 * gap)) gap gap (stage_pure fg gap i vs) =
         stage_pure fg gap (Suc i) vs"
proof (intro nth_equalityI)
  show "length (block_pure (fg i) (i * (2 * gap)) gap gap (stage_pure fg gap i vs)) =
        length (stage_pure fg gap (Suc i) vs)"
    by simp
next
  fix p
  assume "p < length (block_pure (fg i) (i * (2 * gap)) gap gap (stage_pure fg gap i vs))"
  then have p: "p < length vs" by simp
  let ?w = "2 * gap"
  consider (before) "p < i * ?w" | (low) "i * ?w \<le> p" "p < i * ?w + gap"
    | (high) "i * ?w + gap \<le> p" "p < i * ?w + ?w" | (after) "i * ?w + ?w \<le> p"
    by linarith
  then show "block_pure (fg i) (i * ?w) gap gap (stage_pure fg gap i vs) ! p =
             stage_pure fg gap (Suc i) vs ! p"
  proof cases
    case before
    then show ?thesis using p by (simp add: block_pure_nth stage_pure_nth)
  next
    case low
    have dm: "p div ?w = i" "p mod ?w = p - i * ?w"
      using block_index [of i ?w p] low by simp_all
    have a: "p - i * ?w < gap" "p + gap < length vs" "\<not> p < i * ?w" "\<not> p + gap < i * ?w"
      "p < Suc i * ?w"
      using low assms by simp_all
    show ?thesis using p low a dm
      by (simp add: block_pure_nth stage_pure_nth)
  next
    case high
    have dm: "p div ?w = i" "p mod ?w = p - i * ?w"
      using block_index [of i ?w p] high by simp_all
    have a: "\<not> p - i * ?w < gap" "p - gap < length vs" "\<not> p < i * ?w" "\<not> p - gap < i * ?w"
      "\<not> p < i * ?w + gap" "p < Suc i * ?w"
      using high assms by simp_all
    show ?thesis using p high a dm
      by (simp add: block_pure_nth stage_pure_nth)
  next
    case after
    then have "\<not> p < i * ?w" "\<not> p < Suc i * ?w" "\<not> p < i * ?w + gap" by simp_all
    then show ?thesis using p after by (simp add: block_pure_nth stage_pure_nth)
  qed
qed

lemma stage_pure_0 [simp]: "stage_pure fg gap 0 vs = vs"
  by (intro nth_equalityI) (auto simp: stage_pure_def)

lemma dwt_group_closed:
  assumes "k < L" "L \<le> 63" "i < 2 ^ k" "2 ^ L \<le> length vs" "c + 2 ^ k \<le> 2 ^ L"
    "2 ^ L \<le> length roots"
  shows "dwt_group roots (int L) (int k) adv bf (2 ^ (L - k - 1)) i
           \<lparr>vals = stage_pure (\<lambda>g. bf (roots ! (c + (if adv then g else 0)))) (2 ^ (L - k - 1)) i vs,
            root_index = c + (if adv then i else 0),
            root_reads = tr @ map (\<lambda>g. (int k, g, c + (if adv then g else 0))) [0..<i]\<rparr> =
         Inr \<lparr>vals = stage_pure (\<lambda>g. bf (roots ! (c + (if adv then g else 0)))) (2 ^ (L - k - 1)) (Suc i) vs,
              root_index = c + (if adv then Suc i else 0),
              root_reads = tr @ map (\<lambda>g. (int k, g, c + (if adv then g else 0))) [0..<Suc i]\<rparr>"
proof -
  let ?gap = "2 ^ (L - k - 1) :: nat"
  let ?fg = "\<lambda>g. bf (roots ! (c + (if adv then g else 0)))"
  have two_gap: "2 * ?gap = 2 ^ (L - k)"
    using assms(1) by (metis Suc_diff_Suc diff_diff_left plus_1_eq_Suc power_Suc add.commute)
  have split: "(2::nat) ^ L = 2 ^ k * 2 ^ (L - k)"
    using assms(1) by (simp flip: power_add)
  have big: "(2::nat) ^ L < 2 ^ 64"
    using assms(2) by (rule pow2_lt_64)
  have "Suc i * 2 ^ (L - k) \<le> 2 ^ k * 2 ^ (L - k)"
    using assms(3) by (intro mult_le_mono1) simp
  then have blk: "i * 2 ^ (L - k) + 2 ^ (L - k) \<le> 2 ^ L"
    using split by simp
  have cur: "c + (if adv then i else 0) < length roots" "c + i + 1 < 2 ^ 64"
    using assms(3,5,6) big by (auto split: if_splits)
  have sh: "shl i (int L - int k) = Inr (i * (2 * ?gap))"
    using assms(1,2) blk big two_gap by (simp add: shl_def nat_diff_distrib)
  have inner: "for_range (i * (2 * ?gap)) (size_add (i * (2 * ?gap)) ?gap)
                 (butterfly_at (?fg i) ?gap) (stage_pure ?fg ?gap i vs) =
               Inr (stage_pure ?fg ?gap (Suc i) vs)"
    using inner_loop [of ?gap "i * (2 * ?gap)" "stage_pure ?fg ?gap i vs" "?fg i"]
      block_stage [of ?gap i vs ?fg] blk big two_gap assms(4)
    by simp
  show ?thesis
    using cur sh inner
    by (simp add: dwt_group_def read_root_def size_add_ok Let_def)
qed

lemma dwt_stage_closed:
  assumes "k < L" "L \<le> 63" "2 ^ L \<le> length (vals st)" "root_index st + 2 ^ k \<le> 2 ^ L"
    "2 ^ L \<le> length roots"
  shows "dwt_stage roots (int L) (int k) adv bf st =
         Inr \<lparr>vals = stage_pure (\<lambda>g. bf (roots ! (root_index st + (if adv then g else 0))))
                       (2 ^ (L - k - 1)) (2 ^ k) (vals st),
              root_index = root_index st + (if adv then 2 ^ k else 0),
              root_reads = root_reads st @
                map (\<lambda>g. (int k, g, root_index st + (if adv then g else 0))) [0..<2 ^ k]\<rparr>"
proof -
  let ?gap = "2 ^ (L - k - 1) :: nat"
  let ?c = "root_index st"
  let ?P = "\<lambda>i t. t =
     \<lparr>vals = stage_pure (\<lambda>g. bf (roots ! (?c + (if adv then g else 0)))) ?gap i (vals st),
      root_index = ?c + (if adv then i else 0),
      root_reads = root_reads st @ map (\<lambda>g. (int k, g, ?c + (if adv then g else 0))) [0..<i]\<rparr>"
  have m: "shl 1 (int k) = Inr (2 ^ k)"
    using assms(1,2) pow2_lt_64 [of k] by (simp add: shl_def)
  have g: "shl 1 (int L - int k - 1) = Inr ?gap"
    using assms(1,2) pow2_lt_64 [of "L - k - 1"] by (simp add: shl_def nat_diff_distrib)
  have "\<exists>s'. for_range 0 (2 ^ k) (dwt_group roots (int L) (int k) adv bf ?gap) st = Inr s' \<and>
          ?P (2 ^ k) s'"
  proof (rule for_range_total [where P = ?P])
    show "?P 0 st" by simp
  next
    fix i t
    assume "i < 2 ^ k" "?P i t"
    then show "\<exists>t'. dwt_group roots (int L) (int k) adv bf ?gap i t = Inr t' \<and> ?P (Suc i) t'"
      using dwt_group_closed [OF assms(1,2) _ assms(3,4,5), of i adv bf "root_reads st"]
      by simp
  qed simp
  then show ?thesis using m g by (simp add: dwt_stage_def)
qed

lemma to_rev_stages_closed:
  assumes "L \<le> 63" "2 ^ L \<le> length vs" "2 ^ L \<le> length roots"
  shows "Suc k \<le> L \<Longrightarrow>
         to_rev_stages A (int L) roots (int k)
           \<lparr>vals = fwd_pure A roots L k vs, root_index = 2 ^ k, root_reads = fwd_reads k\<rparr> =
         Inr \<lparr>vals = fwd_pure A roots L (L - 1) vs, root_index = 2 ^ (L - 1),
              root_reads = fwd_reads (L - 1)\<rparr>"
proof (induction "L - 1 - k" arbitrary: k)
  case 0
  then have "k = L - 1" by simp
  then show ?case using 0 by (subst to_rev_stages.simps) simp
next
  case (Suc d)
  then have lt: "Suc k < L" by simp
  have len: "length (fwd_pure A roots L k vs) = length vs"
    by (induction k) (simp_all add: fwd_stage_pure_def)
  have cur: "(2::nat) ^ k + 2 ^ k \<le> 2 ^ L"
    using lt power_increasing [of "Suc k" L "2::nat"] by simp
  have st: "dwt_stage roots (int L) (int k) True (butterfly_to A)
              \<lparr>vals = fwd_pure A roots L k vs, root_index = 2 ^ k, root_reads = fwd_reads k\<rparr> =
            Inr \<lparr>vals = fwd_pure A roots L (Suc k) vs, root_index = 2 ^ Suc k,
                 root_reads = fwd_reads (Suc k)\<rparr>"
    using dwt_stage_closed [of k L "\<lparr>vals = fwd_pure A roots L k vs, root_index = 2 ^ k,
        root_reads = fwd_reads k\<rparr>" roots True "butterfly_to A"] lt assms len cur
    by (simp add: fwd_stage_pure_def)
  have "d = L - 1 - Suc k" using Suc.hyps(2) by simp
  from Suc.hyps(1) [OF this] lt
  have rest: "to_rev_stages A (int L) roots (int (Suc k))
           \<lparr>vals = fwd_pure A roots L (Suc k) vs, root_index = 2 ^ Suc k,
            root_reads = fwd_reads (Suc k)\<rparr> =
         Inr \<lparr>vals = fwd_pure A roots L (L - 1) vs, root_index = 2 ^ (L - 1),
              root_reads = fwd_reads (L - 1)\<rparr>"
    by simp
  have "int k < int L - 1" using lt by simp
  then show ?case
    using st rest by (subst to_rev_stages.simps) (simp add: add.commute)
qed

lemma length_fwd_pure [simp]: "length (fwd_pure A roots L k vs) = length vs"
  by (induction k) (simp_all add: fwd_stage_pure_def)

lemma length_inv_pure [simp]: "length (inv_pure A roots L d vs) = length vs"
  by (induction d) (simp_all add: inv_stage_pure_def)

lemma inv_cursor_step:
  assumes "Suc k < L"
  shows "inv_cursor L (Suc k) + 2 ^ Suc k = inv_cursor L k"
proof -
  have "(2::nat) ^ Suc (Suc k) \<le> 2 ^ L"
    using assms by (intro power_increasing) simp_all
  then show ?thesis by (simp add: inv_cursor_def)
qed

lemma inv_cursor_bound:
  assumes "k < L"
  shows "inv_cursor L k + 2 ^ k \<le> 2 ^ L"
proof -
  have "(2::nat) ^ Suc k \<le> 2 ^ L"
    using assms by (intro power_increasing) simp_all
  moreover have "(1::nat) \<le> 2 ^ k" by simp
  ultimately show ?thesis unfolding inv_cursor_def power_Suc by linarith
qed

lemma stage_pure_cong:
  assumes "\<And>g. g < m \<Longrightarrow> fg g = fg' g"
  shows "stage_pure fg gap m vs = stage_pure fg' gap m vs"
proof (intro nth_equalityI)
  fix p
  assume "p < length (stage_pure fg gap m vs)"
  then have p: "p < length vs" by simp
  have "fg (p div (2 * gap)) = fg' (p div (2 * gap))" if "p < m * (2 * gap)"
    using that by (intro assms less_mult_imp_div_less)
  then show "stage_pure fg gap m vs ! p = stage_pure fg' gap m vs ! p"
    using p by (simp add: stage_pure_nth)
qed simp

lemma from_rev_stages_closed:
  assumes "L \<le> 63" "2 ^ L \<le> length vs" "2 ^ L \<le> length roots"
  shows "k < L \<Longrightarrow>
         from_rev_stages A (int L) roots (int k)
           \<lparr>vals = inv_pure A roots L (L - 1 - k) vs, root_index = inv_cursor L k,
            root_reads = inv_reads L (L - 1 - k)\<rparr> =
         Inr \<lparr>vals = inv_pure A roots L (L - 1) vs, root_index = inv_cursor L 0,
              root_reads = inv_reads L (L - 1)\<rparr>"
proof (induction k)
  case 0
  then show ?case by (subst from_rev_stages.simps) simp
next
  case (Suc k)
  define d where "d = L - 1 - Suc k"
  have e: "L - 1 - k = Suc d" "L - 1 - d = Suc k" "L - Suc k - 1 = d"
    "L - Suc k = Suc d" "L - Suc d = Suc k" "L - Suc (Suc k) = d"
    using Suc.prems by (simp_all add: d_def)
  let ?st = "\<lparr>vals = inv_pure A roots L d vs, root_index = inv_cursor L (Suc k),
             root_reads = inv_reads L d\<rparr>"
  have "dwt_stage roots (int L) (int (Suc k)) True (butterfly_from A) ?st =
        Inr \<lparr>vals = inv_stage_pure (butterfly_from A) roots L (Suc k) (inv_pure A roots L d vs),
             root_index = inv_cursor L (Suc k) + 2 ^ Suc k,
             root_reads = inv_reads L d @
               map (\<lambda>g. (int (Suc k), g, inv_cursor L (Suc k) + g)) [0..<2 ^ Suc k]\<rparr>"
    using dwt_stage_closed [of "Suc k" L ?st roots True "butterfly_from A"]
      Suc.prems assms inv_cursor_bound [of "Suc k" L]
    by (simp add: inv_stage_pure_def)
  then have st: "dwt_stage roots (int L) (int (Suc k)) True (butterfly_from A) ?st =
        Inr \<lparr>vals = inv_pure A roots L (Suc d) vs, root_index = inv_cursor L k,
             root_reads = inv_reads L (Suc d)\<rparr>"
    using inv_cursor_step [OF Suc.prems] by (simp add: e)
  have rest: "from_rev_stages A (int L) roots (int k)
           \<lparr>vals = inv_pure A roots L (Suc d) vs, root_index = inv_cursor L k,
            root_reads = inv_reads L (Suc d)\<rparr> =
         Inr \<lparr>vals = inv_pure A roots L (L - 1) vs, root_index = inv_cursor L 0,
              root_reads = inv_reads L (L - 1)\<rparr>"
    using Suc.IH Suc.prems by (simp add: e)
  have "from_rev_stages A (int L) roots (int (Suc k)) ?st =
        from_rev_stages A (int L) roots (int k)
           \<lparr>vals = inv_pure A roots L (Suc d) vs, root_index = inv_cursor L k,
            root_reads = inv_reads L (Suc d)\<rparr>"
    using st by (subst from_rev_stages.simps) simp
  then show ?case using rest by (simp add: d_def)
qed

lemma transform_to_rev_closed:
  assumes "1 \<le> L" "L \<le> 63" "2 ^ L \<le> length vs" "2 ^ L \<le> length roots"
  shows "transform_to_rev A vs (int L) roots scalar =
         Inr \<lparr>vals = to_rev_pure A roots L scalar vs, root_index = 2 ^ L,
              root_reads = fwd_reads L\<rparr>"
proof -
  obtain k where L: "L = Suc k" using assms(1) by (cases L) simp_all
  let ?st = "\<lparr>vals = fwd_pure A roots L k vs, root_index = 2 ^ k, root_reads = fwd_reads k\<rparr>"
  have loop: "to_rev_stages A (int L) roots 0
                \<lparr>vals = vs, root_index = 1, root_reads = []\<rparr> = Inr ?st"
    using to_rev_stages_closed [OF assms(2,3,4), of 0 A] L by simp
  have last: "dwt_stage roots (int L) (int k) True bf ?st =
              Inr \<lparr>vals = fwd_stage_pure bf roots L k (fwd_pure A roots L k vs),
                   root_index = 2 ^ L, root_reads = fwd_reads L\<rparr>" for bf
    using dwt_stage_closed [of k L ?st roots True bf] assms L
    by (simp add: fwd_stage_pure_def)
  have "int L - 1 = int k" using L by simp
  then show ?thesis
    using loop last L
    by (simp add: transform_to_rev_def to_rev_pure_def split: option.split)
qed

lemma transform_from_rev_closed:
  assumes "1 \<le> L" "L \<le> 63" "2 ^ L \<le> length vs" "2 ^ L \<le> length roots"
  shows "transform_from_rev A vs (int L) roots scalar =
         Inr \<lparr>vals = from_rev_pure A roots L scalar vs, root_index = 2 ^ L - 1,
              root_reads = inv_reads L L\<rparr>"
proof -
  obtain k where L: "L = Suc k" using assms(1) by (cases L) simp_all
  let ?st = "\<lparr>vals = inv_pure A roots L k vs, root_index = inv_cursor L 0,
             root_reads = inv_reads L k\<rparr>"
  have loop: "from_rev_stages A (int L) roots (int L - 1)
                \<lparr>vals = vs, root_index = 1, root_reads = []\<rparr> = Inr ?st"
    using from_rev_stages_closed [OF assms(2,3,4), of k A] L by (simp add: inv_cursor_def)
  have c0: "inv_cursor L 0 = 2 ^ L - 1" "inv_cursor L 0 + 2 ^ 0 \<le> 2 ^ L"
    using inv_cursor_bound [of 0 L] L by (simp_all add: inv_cursor_def)
  have last: "dwt_stage roots (int L) 0 False bf ?st =
              Inr \<lparr>vals = inv_stage_pure bf roots L 0 (inv_pure A roots L k vs),
                   root_index = 2 ^ L - 1, root_reads = inv_reads L L\<rparr>" for bf
    using dwt_stage_closed [of 0 L ?st roots False bf] assms L c0
      stage_pure_cong [of 1 "\<lambda>g. bf (roots ! (2 ^ L - 1))" "\<lambda>g. bf (roots ! (2 ^ L - 1 + g))"
        "2 ^ (L - 1)" "inv_pure A roots L k vs"]
    by (simp add: inv_stage_pure_def)
  show ?thesis
    using loop last L
    by (simp add: transform_from_rev_def from_rev_pure_def split: option.split)
qed

section \<open>Outcome of a call, root reads, frame\<close>

lemma to_rev_nonpositive:
  assumes "log_n \<le> 0"
  shows "transform_to_rev A vs log_n roots scalar = Inl (BadShift (log_n - 1))"
  using assms
  by (simp add: transform_to_rev_def to_rev_stages.simps dwt_stage_def shl_def split: option.split)

lemma from_rev_nonpositive:
  assumes "log_n \<le> 0"
  shows "transform_from_rev A vs log_n roots scalar = Inl (BadShift (log_n - 1))"
  using assms
  by (simp add: transform_from_rev_def from_rev_stages.simps dwt_stage_def shl_def
      split: option.split)

lemma to_rev_outcome:
  assumes "sized_call vs log_n roots"
    and "\<And>L. log_n = int L \<Longrightarrow> 1 \<le> L \<Longrightarrow>
           P \<lparr>vals = to_rev_pure A roots L scalar vs, root_index = 2 ^ L, root_reads = fwd_reads L\<rparr>"
  shows "outcome log_n P (transform_to_rev A vs log_n roots scalar)"
proof (cases "1 \<le> log_n")
  case True
  define L where "L = nat log_n"
  have L: "log_n = int L" "1 \<le> L" "L \<le> 63"
    using True assms(1) unfolding L_def sized_call_def by linarith+
  have "transform_to_rev A vs (int L) roots scalar =
        Inr \<lparr>vals = to_rev_pure A roots L scalar vs, root_index = 2 ^ L, root_reads = fwd_reads L\<rparr>"
    using assms(1) L by (intro transform_to_rev_closed) (simp_all add: sized_call_def)
  then show ?thesis using assms(2) [OF L(1,2)] True L(1) by (simp add: outcome_def)
next
  case False
  then show ?thesis using to_rev_nonpositive [of log_n A vs roots scalar] by (simp add: outcome_def)
qed

lemma from_rev_outcome:
  assumes "sized_call vs log_n roots"
    and "\<And>L. log_n = int L \<Longrightarrow> 1 \<le> L \<Longrightarrow>
           P \<lparr>vals = from_rev_pure A roots L scalar vs, root_index = 2 ^ L - 1,
              root_reads = inv_reads L L\<rparr>"
  shows "outcome log_n P (transform_from_rev A vs log_n roots scalar)"
proof (cases "1 \<le> log_n")
  case True
  define L where "L = nat log_n"
  have L: "log_n = int L" "1 \<le> L" "L \<le> 63"
    using True assms(1) unfolding L_def sized_call_def by linarith+
  have "transform_from_rev A vs (int L) roots scalar =
        Inr \<lparr>vals = from_rev_pure A roots L scalar vs, root_index = 2 ^ L - 1,
             root_reads = inv_reads L L\<rparr>"
    using assms(1) L by (intro transform_from_rev_closed) (simp_all add: sized_call_def)
  then show ?thesis using assms(2) [OF L(1,2)] True L(1) by (simp add: outcome_def)
next
  case False
  then show ?thesis using from_rev_nonpositive [of log_n A vs roots scalar] by (simp add: outcome_def)
qed

lemma fwd_reads_indices: "map (snd \<circ> snd) (fwd_reads k) = [1..<2 ^ k]"
proof (induction k)
  case 0
  show ?case by simp
next
  case (Suc k)
  have "map (\<lambda>g. 2 ^ k + g) [0..<2 ^ k] = [2 ^ k..<2 ^ k + 2 ^ k]"
    using map_add_upt [of "2 ^ k" "2 ^ k"] by (simp add: add.commute)
  moreover have "[1..<2 ^ k + 2 ^ k] = [1..<2 ^ k] @ [2 ^ k..<2 ^ k + 2 ^ k]"
    by (intro upt_add_eq_append) simp
  ultimately show ?case using Suc by (simp add: comp_def mult_2)
qed

lemma inv_reads_indices:
  "d \<le> L \<Longrightarrow> map (snd \<circ> snd) (inv_reads L d) = [1..<2 ^ L - 2 ^ (L - d) + 1]"
proof (induction d)
  case 0
  show ?case by simp
next
  case (Suc d)
  define k where "k = L - 1 - d"
  have k: "L - d = Suc k" "L - Suc d = k" "Suc k \<le> L" using Suc.prems by (simp_all add: k_def)
  have le: "(2::nat) ^ Suc k \<le> 2 ^ L" using k(3) by (intro power_increasing) simp_all
  have c: "inv_cursor L k = 2 ^ L - 2 ^ Suc k + 1" by (simp add: inv_cursor_def)
  have e: "2 ^ L - 2 ^ Suc k + 1 + 2 ^ k = 2 ^ L - 2 ^ k + (1::nat)"
    using le by simp
  have "map (\<lambda>g. inv_cursor L k + g) [0..<2 ^ k] = [inv_cursor L k..<inv_cursor L k + 2 ^ k]"
    using map_add_upt [of "inv_cursor L k" "2 ^ k"] by (simp add: add.commute)
  moreover have "[1..<inv_cursor L k + 2 ^ k] = [1..<inv_cursor L k] @ [inv_cursor L k..<inv_cursor L k + 2 ^ k]"
    by (intro upt_add_eq_append) (simp add: c)
  ultimately have "map (snd \<circ> snd) (inv_reads L (Suc d)) = [1..<inv_cursor L k + 2 ^ k]"
    using Suc k by (simp add: comp_def k_def [symmetric] c)
  then show ?case using e by (simp only: k c)
qed

lemma fwd_reads_concat:
  "fwd_reads L = concat (map (\<lambda>k. map (\<lambda>i. (int k, i, 2 ^ k + i)) [0..<2 ^ k]) [0..<L])"
  by (induction L) simp_all

lemma stage_pure_frame:
  assumes "m * (2 * gap) \<le> N"
  shows "drop N (stage_pure fg gap m vs) = drop N vs"
proof (intro nth_equalityI)
  fix p
  assume "p < length (drop N (stage_pure fg gap m vs))"
  then have "N + p < length vs" by simp
  moreover have "\<not> N + p < m * (2 * gap)" using assms by simp
  ultimately show "drop N (stage_pure fg gap m vs) ! p = drop N vs ! p"
    by (simp add: stage_pure_nth)
qed simp

lemma stage_size: "k < L \<Longrightarrow> (2::nat) ^ k * (2 * 2 ^ (L - Suc k)) = 2 ^ L"
proof -
  assume "k < L"
  then have "L = k + Suc (L - Suc k)" by simp
  then have "(2::nat) ^ L = 2 ^ k * 2 ^ Suc (L - Suc k)" by (metis power_add)
  then show ?thesis by simp
qed

lemma fwd_stage_pure_frame:
  "k < L \<Longrightarrow> drop (2 ^ L) (fwd_stage_pure bf roots L k vs) = drop (2 ^ L) vs"
  unfolding fwd_stage_pure_def by (intro stage_pure_frame) (simp add: stage_size)

lemma inv_stage_pure_frame:
  "k < L \<Longrightarrow> drop (2 ^ L) (inv_stage_pure bf roots L k vs) = drop (2 ^ L) vs"
  unfolding inv_stage_pure_def by (intro stage_pure_frame) (simp add: stage_size)

lemma fwd_pure_frame: "k \<le> L \<Longrightarrow> drop (2 ^ L) (fwd_pure A roots L k vs) = drop (2 ^ L) vs"
  by (induction k) (simp_all add: fwd_stage_pure_frame)

lemma inv_pure_frame: "d \<le> L \<Longrightarrow> drop (2 ^ L) (inv_pure A roots L d vs) = drop (2 ^ L) vs"
  by (induction d) (simp_all add: inv_stage_pure_frame)

lemma to_rev_pure_frame:
  "1 \<le> L \<Longrightarrow> drop (2 ^ L) (to_rev_pure A roots L scalar vs) = drop (2 ^ L) vs"
  by (simp add: to_rev_pure_def fwd_stage_pure_frame fwd_pure_frame)

lemma from_rev_pure_frame:
  "1 \<le> L \<Longrightarrow> drop (2 ^ L) (from_rev_pure A roots L scalar vs) = drop (2 ^ L) vs"
  by (simp add: from_rev_pure_def inv_stage_pure_frame inv_pure_frame)

lemma length_to_rev_pure [simp]: "length (to_rev_pure A roots L scalar vs) = length vs"
  by (simp add: to_rev_pure_def fwd_stage_pure_def)

lemma length_from_rev_pure [simp]: "length (from_rev_pure A roots L scalar vs) = length vs"
  by (simp add: from_rev_pure_def inv_stage_pure_def)

section \<open>The embedding and the worded algorithms\<close>

lemma for_range_for_each: "for_range lo hi body s = for_each [lo..<hi] body s"
proof (induction lo hi body s rule: for_range.induct)
  case (1 lo hi body s)
  show ?case
  proof (cases "lo < hi")
    case True
    then show ?thesis
      using 1 by (subst for_range.simps) (cases "body lo s"; simp add: upt_conv_Cons)
  next
    case False
    then show ?thesis by (subst for_range.simps) simp
  qed
qed

lemma for_each_snoc: "for_each (xs @ [x]) body s = and_then (for_each xs body s) (body x)"
proof (induction xs arbitrary: s)
  case Nil
  show ?case by (cases "body x s") simp_all
next
  case (Cons y ys)
  then show ?case by (cases "body y s") simp_all
qed

lemma butterfly_at_to: "butterfly_at (butterfly_to A r) gap = spec_to_rev_butterfly A r gap"
  by (intro ext) (simp add: butterfly_at_def spec_to_rev_butterfly_def butterfly_to_def Let_def)

lemma butterfly_at_from: "butterfly_at (butterfly_from A r) gap = spec_from_rev_butterfly A r gap"
  by (intro ext) (simp add: butterfly_at_def spec_from_rev_butterfly_def butterfly_from_def Let_def)

lemma dwt_group_spec:
  assumes "\<And>r. butterfly_at (bf r) gap = butterfly r gap"
  shows "dwt_group roots log_n log_m True bf gap i st =
         and_then (read_root roots (root_index st)) (\<lambda>r.
         and_then (shl i (log_n - log_m)) (\<lambda>offset.
         and_then (for_each [offset..<size_add offset gap] (butterfly r gap) (vals st)) (\<lambda>vs.
           Inr \<lparr>vals = vs,
                root_index = size_add (root_index st) 1,
                root_reads = root_reads st @ [(log_m, i, root_index st)]\<rparr>)))"
  by (cases st) (simp add: dwt_group_def Let_def for_range_for_each assms)

lemma dwt_stage_spec:
  assumes "\<And>r gap. butterfly_at (bf r) gap = butterfly r gap"
  shows "dwt_stage roots log_n log_m True bf st = spec_stage butterfly log_n roots log_m st"
proof -
  have "dwt_group roots log_n log_m True bf gap =
        (\<lambda>i st. and_then (read_root roots (root_index st)) (\<lambda>r.
           and_then (shl i (log_n - log_m)) (\<lambda>offset.
           and_then (for_each [offset..<size_add offset gap] (butterfly r gap) (vals st)) (\<lambda>vs.
             Inr \<lparr>vals = vs,
                  root_index = size_add (root_index st) 1,
                  root_reads = root_reads st @ [(log_m, i, root_index st)]\<rparr>))))" for gap
    by (intro ext) (rule dwt_group_spec [OF assms])
  then show ?thesis
    by (simp add: dwt_stage_def spec_stage_def for_range_for_each)
qed

lemma to_rev_stages_spec:
  "0 \<le> k \<Longrightarrow>
   to_rev_stages A log_n roots k st =
   for_each (map int [nat k..<nat (log_n - 1)]) (spec_stage (spec_to_rev_butterfly A) log_n roots) st"
proof (induction A log_n roots k st rule: to_rev_stages.induct)
  case (1 A log_n roots log_m st)
  show ?case
  proof (cases "log_m < log_n - 1")
    case True
    then have l: "[nat log_m..<nat (log_n - 1)] = nat log_m # [nat (log_m + 1)..<nat (log_n - 1)]"
      using "1.prems" by (simp add: upt_conv_Cons nat_add_distrib)
    show ?thesis
    proof (cases "dwt_stage roots log_n log_m True (butterfly_to A) st")
      case (Inl e)
      then show ?thesis
        using True "1.prems" l dwt_stage_spec [of "butterfly_to A" "spec_to_rev_butterfly A", OF butterfly_at_to]
        by (subst to_rev_stages.simps) simp
    next
      case (Inr st')
      then show ?thesis
        using True "1.prems" l "1.IH" [OF True Inr]
          dwt_stage_spec [of "butterfly_to A" "spec_to_rev_butterfly A", OF butterfly_at_to]
        by (subst to_rev_stages.simps) simp
    qed
  next
    case False
    then show ?thesis by (subst to_rev_stages.simps) simp
  qed
qed

lemma from_rev_stages_spec:
  "from_rev_stages A log_n roots k st =
   for_each (map int (rev [1..<nat (k + 1)])) (spec_stage (spec_from_rev_butterfly A) log_n roots) st"
proof (induction A log_n roots k st rule: from_rev_stages.induct)
  case (1 A log_n roots log_m st)
  show ?case
  proof (cases "log_m > 0")
    case True
    then have "[1..<nat (log_m + 1)] = [1..<nat log_m] @ [nat log_m]"
      by (simp add: nat_add_distrib)
    then have l: "rev [1..<nat (log_m + 1)] = nat log_m # rev [1..<nat (log_m - 1 + 1)]"
      by simp
    show ?thesis
    proof (cases "dwt_stage roots log_n log_m True (butterfly_from A) st")
      case (Inl e)
      then show ?thesis
        using True l dwt_stage_spec [of "butterfly_from A" "spec_from_rev_butterfly A", OF butterfly_at_from]
        by (subst from_rev_stages.simps) simp
    next
      case (Inr st')
      then show ?thesis
        using True l "1.IH" [OF True Inr]
          dwt_stage_spec [of "butterfly_from A" "spec_from_rev_butterfly A", OF butterfly_at_from]
        by (subst from_rev_stages.simps) simp
    qed
  next
    case False
    then show ?thesis by (subst from_rev_stages.simps) simp
  qed
qed

lemma observed_and_then: "observed (and_then m f) = and_then m (\<lambda>x. observed (f x))"
  by (cases m) (simp_all add: observed_def)

lemma for_range_once: "for_range 0 (Suc 0) body s = body 0 s"
  by (cases "body 0 s")
    (simp_all add: for_range.simps [of 0 "Suc 0"] for_range.simps [of "Suc 0" "Suc 0"])

lemma last_stage_observed:
  "observed (dwt_stage roots log_n 0 False bf st) = observed (dwt_stage roots log_n 0 True bf st)"
proof -
  have "observed (dwt_group roots log_n 0 False bf gap 0 st) =
        observed (dwt_group roots log_n 0 True bf gap 0 st)" for gap
    by (simp add: dwt_group_def Let_def observed_and_then) (simp add: observed_def)
  moreover have "shl 1 0 = Inr 1" by (simp add: shl_def)
  ultimately show ?thesis
    by (simp add: dwt_stage_def observed_and_then for_range_once)
qed

section \<open>Scalar fusion and the round trip on the closed forms\<close>

lemma stage_pure_map:
  assumes "\<And>g x y. g < m \<Longrightarrow> fg' g (h x) (h y) = map_prod h h (fg g x y)"
    and "m * (2 * gap) \<le> length vs"
  shows "stage_pure fg' gap m (map h vs) = map h (stage_pure fg gap m vs)"
proof (intro nth_equalityI)
  fix p
  assume "p < length (stage_pure fg' gap m (map h vs))"
  then have p: "p < length vs" by simp
  show "stage_pure fg' gap m (map h vs) ! p = map h (stage_pure fg gap m vs) ! p"
  proof (cases "p < m * (2 * gap)")
    case True
    then have g: "p div (2 * gap) < m" by (rule less_mult_imp_div_less)
    define w where "w = 2 * gap"
    have "0 < gap" using True by (cases gap) simp_all
    then have q: "p mod w < w" by (simp add: w_def)
    have e: "p = p div w * w + p mod w" by (rule div_mult_mod_eq [symmetric])
    have "Suc (p div w) * w \<le> m * w"
      using g unfolding w_def by (intro mult_le_mono1) simp
    then have u: "p div w * w + w \<le> length vs" using assms(2) by (simp add: w_def)
    have b: "p mod (2 * gap) < gap \<Longrightarrow> p + gap < length vs"
      using e u unfolding w_def by linarith
    show ?thesis
    proof (cases "p mod (2 * gap) < gap")
      case True
      then show ?thesis
        using p b \<open>p < m * (2 * gap)\<close> assms(1) [OF g, of "vs ! p" "vs ! (p + gap)"]
        by (simp add: stage_pure_nth)
    next
      case False
      have "p - gap < length vs" using p by simp
      then show ?thesis
        using p False \<open>p < m * (2 * gap)\<close> assms(1) [OF g, of "vs ! (p - gap)" "vs ! p"]
        by (simp add: stage_pure_nth)
    qed
  next
    case False
    then show ?thesis using p by (simp add: stage_pure_nth)
  qed
qed simp

lemma stage_pure_scaled:
  assumes "\<And>g x y. g < m \<Longrightarrow> fg' g x y = map_prod h h (fg g x y)"
    and "m * (2 * gap) = length vs"
  shows "stage_pure fg' gap m vs = map h (stage_pure fg gap m vs)"
proof (intro nth_equalityI)
  fix p
  assume "p < length (stage_pure fg' gap m vs)"
  then have p: "p < length vs" by simp
  then have lt: "p < m * (2 * gap)" using assms(2) by simp
  then have g: "p div (2 * gap) < m" by (rule less_mult_imp_div_less)
  show "stage_pure fg' gap m vs ! p = map h (stage_pure fg gap m vs) ! p"
    using p lt assms(1) [OF g] by (simp add: stage_pure_nth)
qed simp

lemma butterfly_to_scaled_fused:
  assumes "\<And>a r. mul_root A a (mul_root_scalar A r s) = mul_scalar A (mul_root A a r) s"
    and "\<And>a b. mul_scalar A (add A a b) s = add A (mul_scalar A a s) (mul_scalar A b s)"
    and "\<And>a b. mul_scalar A (sub A a b) s = sub A (mul_scalar A a s) (mul_scalar A b s)"
  shows "butterfly_to_scaled A s r x y = map_prod (\<lambda>a. mul_scalar A a s) (\<lambda>a. mul_scalar A a s) (butterfly_to A r x y)"
  by (simp add: butterfly_to_scaled_def butterfly_to_def Let_def assms)

lemma butterfly_from_scaled_fused:
  assumes "\<And>a r. mul_root A a (mul_root_scalar A r s) = mul_scalar A (mul_root A a r) s"
    and "\<And>a. guard A a = a"
  shows "butterfly_from_scaled A s r x y = map_prod (\<lambda>a. mul_scalar A a s) (\<lambda>a. mul_scalar A a s) (butterfly_from A r x y)"
  by (simp add: butterfly_from_scaled_def butterfly_from_def Let_def assms)

lemma pow2_pred:
  "1 \<le> L \<Longrightarrow> 2 * 2 ^ (L - Suc 0) = (2::nat) ^ L"
  "1 \<le> L \<Longrightarrow> 2 ^ (L - Suc 0) * 2 = (2::nat) ^ L"
  by (cases L; simp)+

lemma int_nat_cases:
  fixes log_n :: int
  assumes "log_n \<le> 63"
  obtains (nonpositive) "log_n \<le> 0" | (positive) L where "log_n = int L" "1 \<le> L" "L \<le> 63"
proof (cases "log_n \<le> 0")
  case True
  then show ?thesis by (rule nonpositive)
next
  case False
  then have "log_n = int (nat log_n)" "1 \<le> nat log_n" "nat log_n \<le> 63"
    using assms by linarith+
  then show ?thesis by (rule positive)
qed

lemma length_fwd_stage_pure [simp]: "length (fwd_stage_pure bf roots L k vs) = length vs"
  by (simp add: fwd_stage_pure_def)

lemma length_inv_stage_pure [simp]: "length (inv_stage_pure bf roots L k vs) = length vs"
  by (simp add: inv_stage_pure_def)

lemma stage_pure_id: "stage_pure (\<lambda>g x y. (x, y)) gap m vs = vs"
  by (intro nth_equalityI) (simp_all add: stage_pure_nth)

lemma stage_pure_comp:
  assumes "m * (2 * gap) \<le> length vs"
  shows "stage_pure f2 gap m (stage_pure f1 gap m vs) =
         stage_pure (\<lambda>g x y. f2 g (fst (f1 g x y)) (snd (f1 g x y))) gap m vs"
proof (intro nth_equalityI)
  fix p
  assume "p < length (stage_pure f2 gap m (stage_pure f1 gap m vs))"
  then have p: "p < length vs" by simp
  let ?S = "stage_pure f1 gap m vs"
  show "stage_pure f2 gap m ?S ! p =
        stage_pure (\<lambda>g x y. f2 g (fst (f1 g x y)) (snd (f1 g x y))) gap m vs ! p"
  proof (cases "p < m * (2 * gap)")
    case False
    then show ?thesis using p by (simp add: stage_pure_nth)
  next
    case True
    define w where "w = 2 * gap"
    define g where "g = p div w"
    have gm: "g < m" using True unfolding g_def w_def by (rule less_mult_imp_div_less)
    have "0 < gap" using True by (cases gap) simp_all
    then have q: "p mod w < w" by (simp add: w_def)
    have e: "p = g * w + p mod w" unfolding g_def by (rule div_mult_mod_eq [symmetric])
    have "Suc g * w \<le> m * w" using gm by (intro mult_le_mono1) simp
    then have u: "g * w + w \<le> m * w" "g * w + w \<le> length vs" using assms by (simp_all add: w_def)
    show ?thesis
    proof (cases "p mod w < gap")
      case low: True
      have r: "g * w \<le> p + gap" "p + gap < g * w + w"
        using e low unfolding w_def by linarith+
      have i: "(p + gap) div w = g" "(p + gap) mod w = p + gap - g * w"
        using block_index [OF r] by simp_all
      have n: "\<not> (p + gap) mod w < gap" using i(2) e by linarith
      have b: "p + gap < length vs" "p + gap < m * w" using r u by linarith+
      have "?S ! p = fst (f1 g (vs ! p) (vs ! (p + gap)))"
        using p True low by (simp add: stage_pure_nth g_def w_def)
      moreover have "?S ! (p + gap) = snd (f1 g (vs ! p) (vs ! (p + gap)))"
        using b n i(1) by (simp add: stage_pure_nth w_def)
      ultimately show ?thesis
        using p True low by (simp add: stage_pure_nth g_def w_def)
    next
      case high: False
      have ge: "gap \<le> p" using high e by linarith
      have r: "g * w \<le> p - gap" "p - gap < g * w + w"
        using e high q unfolding w_def by linarith+
      have i: "(p - gap) div w = g" "(p - gap) mod w = p - gap - g * w"
        using block_index [OF r] by simp_all
      have n: "(p - gap) mod w < gap" using i(2) e q unfolding w_def by linarith
      have b: "p - gap < length vs" "p - gap < m * w" using r u by linarith+
      have "?S ! p = snd (f1 g (vs ! (p - gap)) (vs ! p))"
        using p True high by (simp add: stage_pure_nth g_def w_def)
      moreover have "?S ! (p - gap) = fst (f1 g (vs ! (p - gap)) (vs ! p))"
        using b n i(1) ge by (simp add: stage_pure_nth w_def)
      ultimately show ?thesis
        using p True high by (simp add: stage_pure_nth g_def w_def)
    qed
  qed
qed simp

lemma ring_butterflies:
  "butterfly_to ring_arith r x y = (x + y * r, x - y * r)"
  "butterfly_from ring_arith r x y = (x + y, (x - y) * r)"
  "butterfly_from_scaled ring_arith c r x y = ((x + y) * c, (x - y) * (r * c))"
  by (simp_all add: butterfly_to_def butterfly_from_def butterfly_from_scaled_def ring_arith_def
      Let_def)

lemma stage_size_le: "k < L \<Longrightarrow> 2 * ((2::nat) ^ k * 2 ^ (L - Suc k)) \<le> 2 ^ L"
  using stage_size [of k L] by (simp add: mult.left_commute)

lemma ring_stage_inverse:
  fixes ws :: "'a::comm_ring_1 list"
  assumes "k < L" "length ws = 2 ^ L"
    and pair: "\<And>i. i < 2 ^ k \<Longrightarrow> irs ! (inv_cursor L k + i) * frs ! (2 ^ k + i) = 1"
  shows "inv_stage_pure (butterfly_from ring_arith) irs L k
           (fwd_stage_pure (butterfly_to ring_arith) frs L k ws) = map (\<lambda>x. 2 * x) ws"
proof -
  let ?gap = "2 ^ (L - k - 1) :: nat"
  have sz: "2 ^ k * (2 * ?gap) = length ws" using assms(1,2) by (simp add: stage_size)
  have "inv_stage_pure (butterfly_from ring_arith) irs L k
          (fwd_stage_pure (butterfly_to ring_arith) frs L k ws) =
        stage_pure (\<lambda>g x y. butterfly_from ring_arith (irs ! (inv_cursor L k + g))
            (fst (butterfly_to ring_arith (frs ! (2 ^ k + g)) x y))
            (snd (butterfly_to ring_arith (frs ! (2 ^ k + g)) x y))) ?gap (2 ^ k) ws"
    unfolding inv_stage_pure_def fwd_stage_pure_def
    using sz by (intro stage_pure_comp) simp
  also have "\<dots> = map (\<lambda>x. 2 * x) (stage_pure (\<lambda>g x y. (x, y)) ?gap (2 ^ k) ws)"
  proof (intro stage_pure_scaled sz)
    fix g :: nat and x y :: 'a
    assume "g < 2 ^ k"
    define r where "r = frs ! (2 ^ k + g)"
    define r' where "r' = irs ! (inv_cursor L k + g)"
    have e: "r' * r = 1" unfolding r_def r'_def using \<open>g < 2 ^ k\<close> by (rule pair)
    have "(x + y * r) + (x - y * r) = 2 * x" by (simp add: algebra_simps)
    moreover have "((x + y * r) - (x - y * r)) * r' = 2 * y * (r' * r)"
      by (simp add: algebra_simps)
    ultimately have "butterfly_from ring_arith r' (fst (butterfly_to ring_arith r x y))
                 (snd (butterfly_to ring_arith r x y)) = (2 * x, 2 * y)"
      using e by (simp add: ring_butterflies)
    then show "butterfly_from ring_arith (irs ! (inv_cursor L k + g))
                 (fst (butterfly_to ring_arith (frs ! (2 ^ k + g)) x y))
                 (snd (butterfly_to ring_arith (frs ! (2 ^ k + g)) x y)) =
               map_prod (\<lambda>x. 2 * x) (\<lambda>x. 2 * x) (x, y)"
      by (simp add: r_def r'_def)
  qed
  finally show ?thesis by (simp add: stage_pure_id)
qed

lemma ring_inv_stage_linear:
  fixes ws :: "'a::comm_ring_1 list"
  assumes "k < L" "length ws = 2 ^ L"
  shows "inv_stage_pure (butterfly_from ring_arith) irs L k (map (\<lambda>x. c * x) ws) =
         map (\<lambda>x. c * x) (inv_stage_pure (butterfly_from ring_arith) irs L k ws)"
  unfolding inv_stage_pure_def
  using assms
  by (intro stage_pure_map) (simp_all add: ring_butterflies algebra_simps stage_size_le)

lemma ring_inverse_forward:
  fixes ws :: "'a::comm_ring_1 list"
  assumes "length ws = 2 ^ L" "inverse_tables L frs irs"
  shows "d \<le> L \<Longrightarrow>
         inv_pure ring_arith irs L d (fwd_pure ring_arith frs L L ws) =
         map (\<lambda>x. 2 ^ d * x) (fwd_pure ring_arith frs L (L - d) ws)"
proof (induction d)
  case 0
  show ?case by simp
next
  case (Suc d)
  define k where "k = L - 1 - d"
  have k: "k < L" "L - d = Suc k" "L - Suc d = k" using Suc.prems by (simp_all add: k_def)
  let ?W = "fwd_pure ring_arith frs L k ws"
  have pair: "\<And>i. i < 2 ^ k \<Longrightarrow> irs ! (inv_cursor L k + i) * frs ! (2 ^ k + i) = 1"
    using assms(2) k(1) by (simp add: inverse_tables_def)
  have "inv_pure ring_arith irs L (Suc d) (fwd_pure ring_arith frs L L ws) =
        inv_stage_pure (butterfly_from ring_arith) irs L k
          (map (\<lambda>x. 2 ^ d * x) (fwd_pure ring_arith frs L (Suc k) ws))"
    using Suc.IH Suc.prems k(2,3) by simp
  also have "\<dots> = map (\<lambda>x. 2 ^ d * x)
          (inv_stage_pure (butterfly_from ring_arith) irs L k
             (fwd_stage_pure (butterfly_to ring_arith) frs L k ?W))"
    using ring_inv_stage_linear [OF k(1), of "fwd_pure ring_arith frs L (Suc k) ws" irs "2 ^ d"]
      assms(1)
    by simp
  also have "\<dots> = map (\<lambda>x. 2 ^ d * x) (map (\<lambda>x. 2 * x) ?W)"
    using ring_stage_inverse [OF k(1) _ pair, of ?W] assms(1) by simp
  also have "\<dots> = map (\<lambda>x. 2 ^ Suc d * x) ?W"
    by (simp add: comp_def mult.assoc)
  finally show ?case by (simp only: k)
qed

lemma ring_round_trip:
  fixes ws :: "'a::comm_ring_1 list"
  assumes "1 \<le> L" "length ws = 2 ^ L" "inverse_tables L frs irs" "c * 2 ^ L = 1"
  shows "from_rev_pure ring_arith irs L (Some c) (to_rev_pure ring_arith frs L None ws) = ws"
proof -
  obtain k where L: "L = Suc k" using assms(1) by (cases L) simp_all
  have fwd: "to_rev_pure ring_arith frs L None ws = fwd_pure ring_arith frs L L ws"
    by (simp add: to_rev_pure_def L)
  let ?Z = "fwd_pure ring_arith frs L L ws"
  have "from_rev_pure ring_arith irs L (Some c) ?Z =
        map (\<lambda>x. x * c)
          (inv_stage_pure (butterfly_from ring_arith) irs L 0 (inv_pure ring_arith irs L (L - 1) ?Z))"
    unfolding from_rev_pure_def inv_stage_pure_def option.case
    using assms(1,2)
    by (intro stage_pure_scaled) (simp_all add: ring_butterflies pow2_pred)
  also have "\<dots> = map (\<lambda>x. x * c) (inv_pure ring_arith irs L L ?Z)"
    by (simp add: L)
  also have "\<dots> = map (\<lambda>x. x * c) (map (\<lambda>x. 2 ^ L * x) ws)"
    using ring_inverse_forward [OF assms(2,3), of L] by simp
  also have "\<dots> = ws"
  proof -
    have "2 ^ L * x * c = x" for x :: 'a
    proof -
      have "2 ^ L * x * c = x * (c * 2 ^ L)" by (simp only: ac_simps)
      then show ?thesis using assms(4) by simp
    qed
    then show ?thesis by (simp add: comp_def)
  qed
  finally show ?thesis using fwd by simp
qed

lemma view_stage:
  assumes "\<And>r x y. map_prod val val (bf r x y) = bf' (rt r) (val x) (val y)"
    and "k < L" "2 ^ L \<le> length vs" "c + 2 ^ k \<le> length roots"
  shows "map val (stage_pure (\<lambda>g. bf (roots ! (c + g))) (2 ^ (L - k - 1)) (2 ^ k) vs) =
         stage_pure (\<lambda>g. bf' (map rt roots ! (c + g))) (2 ^ (L - k - 1)) (2 ^ k) (map val vs)"
  using assms(2,3,4)
  by (intro stage_pure_map [symmetric]) (simp_all add: assms(1) stage_size)

lemma view_butterflies:
  assumes "ring_view A val rt sc"
  shows "map_prod val val (butterfly_to A r x y) = butterfly_to ring_arith (rt r) (val x) (val y)"
    and "map_prod val val (butterfly_from A r x y) = butterfly_from ring_arith (rt r) (val x) (val y)"
    and "map_prod val val (butterfly_from_scaled A s r x y) =
         butterfly_from_scaled ring_arith (sc s) (rt r) (val x) (val y)"
  using assms
  by (simp_all add: ring_view_def ring_arith_def butterfly_to_def butterfly_from_def
      butterfly_from_scaled_def Let_def)

lemma view_fwd_pure:
  assumes "ring_view A val rt sc" "2 ^ L \<le> length vs" "2 ^ L \<le> length roots"
  shows "k \<le> L \<Longrightarrow>
         map val (fwd_pure A roots L k vs) = fwd_pure ring_arith (map rt roots) L k (map val vs)"
proof (induction k)
  case 0
  show ?case by simp
next
  case (Suc k)
  then have k: "k < L" by simp
  have "(2::nat) ^ Suc k \<le> 2 ^ L" using k by (intro power_increasing) simp_all
  then have r: "2 ^ k + 2 ^ k \<le> length roots" using assms(3) by simp
  show ?case
    using view_stage [of val "butterfly_to A" "butterfly_to ring_arith" rt k L
        "fwd_pure A roots L k vs" "2 ^ k" roots, OF view_butterflies(1) [OF assms(1)] k _ r]
      Suc assms(2)
    by (simp add: fwd_stage_pure_def)
qed

lemma view_inv_pure:
  assumes "ring_view A val rt sc" "2 ^ L \<le> length vs" "2 ^ L \<le> length roots"
  shows "d \<le> L \<Longrightarrow>
         map val (inv_pure A roots L d vs) = inv_pure ring_arith (map rt roots) L d (map val vs)"
proof (induction d)
  case 0
  show ?case by simp
next
  case (Suc d)
  define k where "k = L - 1 - d"
  have k: "k < L" using Suc.prems by (simp add: k_def)
  have r: "inv_cursor L k + 2 ^ k \<le> length roots"
    using inv_cursor_bound [OF k] assms(3) by simp
  show ?case
    using view_stage [of val "butterfly_from A" "butterfly_from ring_arith" rt k L
        "inv_pure A roots L d vs" "inv_cursor L k" roots, OF view_butterflies(2) [OF assms(1)] k _ r]
      Suc assms(2)
    by (simp add: inv_stage_pure_def k_def)
qed

lemma view_to_rev_pure:
  assumes "ring_view A val rt sc" "1 \<le> L" "2 ^ L \<le> length vs" "2 ^ L \<le> length roots"
  shows "map val (to_rev_pure A roots L None vs) =
         to_rev_pure ring_arith (map rt roots) L None (map val vs)"
proof -
  obtain k where L: "L = Suc k" using assms(2) by (cases L) simp_all
  have "to_rev_pure A roots L None vs = fwd_pure A roots L L vs"
    by (simp add: to_rev_pure_def L)
  moreover have "to_rev_pure ring_arith (map rt roots) L None (map val vs) =
        fwd_pure ring_arith (map rt roots) L L (map val vs)"
    by (simp add: to_rev_pure_def L)
  ultimately show ?thesis using view_fwd_pure [OF assms(1,3,4), of L] by simp
qed

lemma view_from_rev_pure:
  assumes "ring_view A val rt sc" "1 \<le> L" "2 ^ L \<le> length vs" "2 ^ L \<le> length roots"
  shows "map val (from_rev_pure A roots L (Some s) vs) =
         from_rev_pure ring_arith (map rt roots) L (Some (sc s)) (map val vs)"
proof -
  have k: "0 < L" "L - 1 \<le> L" using assms(2) by simp_all
  have r: "inv_cursor L 0 + 2 ^ 0 \<le> length roots"
    using inv_cursor_bound [OF k(1)] assms(4) by simp
  show ?thesis
    using view_stage [of val "butterfly_from_scaled A s" "butterfly_from_scaled ring_arith (sc s)" rt
        0 L "inv_pure A roots L (L - 1) vs" "inv_cursor L 0" roots,
        OF view_butterflies(3) [OF assms(1)] k(1) _ r]
      view_inv_pure [OF assms(1,3,4) k(2)] assms(3)
    by (simp add: from_rev_pure_def inv_stage_pure_def)
qed

section \<open>Properties\<close>

text \<open>
  C1, as stated: the round trip restores the buffer for every \<open>n = 2^k\<close> from \<open>k = 0\<close> on. For
  \<open>k = 0\<close>, a buffer of one element and the scalar \<open>1/n = 1\<close>, the forward transform is
  undefined at the shift \<^verbatim>\<open>1 << log_m\<close> with \<open>log_m = -1\<close> (line 135): nothing is restored.
\<close>

theorem round_trip_one_element_counterexample:
  "and_then (transform_to_rev ring_arith [5 :: int] 0 [1] None)
     (\<lambda>st. transform_from_rev ring_arith (vals st) 0 [1] (Some 1)) = Inl (BadShift (- 1))"
  by (simp add: run_simps)

text \<open>
  C1, amended. Let the arithmetic implement a commutative ring (\<open>ring_view\<close>), let
  \<open>1 \<le> log_n \<le> 63\<close>, \<open>n = 2^log_n\<close>, let the buffer and both root tables have \<open>n\<close> elements,
  let the tables belong together (\<open>inverse_tables\<close>) and let the scalar be \<open>1/n\<close> in the ring.
  Then \<open>transform_to_rev\<close> without a scalar returns, \<open>transform_from_rev\<close> with the scalar
  returns on its result, and the final buffer holds the ring elements of the original one;
  where a ring element has one representation only (\<open>val\<close> injective), the final buffer is
  the original one. Floating-point tolerances are outside this statement.
\<close>

theorem round_trip:
  fixes val :: "'v \<Rightarrow> 'a::comm_ring_1"
  assumes view: "ring_view A val rt sc"
    and size: "1 \<le> log_n" "log_n \<le> 63" "length vs = 2 ^ nat log_n"
      "length roots_fwd = 2 ^ nat log_n" "length roots_inv = 2 ^ nat log_n"
    and tables: "inverse_tables (nat log_n) (map rt roots_fwd) (map rt roots_inv)"
    and scalar: "sc s * 2 ^ nat log_n = 1"
  shows "\<exists>st st'. transform_to_rev A vs log_n roots_fwd None = Inr st \<and>
           transform_from_rev A (vals st) log_n roots_inv (Some s) = Inr st' \<and>
           map val (vals st') = map val vs \<and> (inj val \<longrightarrow> vals st' = vs)"
proof -
  define L where "L = nat log_n"
  have L: "log_n = int L" "1 \<le> L" "L \<le> 63" using size(1,2) unfolding L_def by linarith+
  have len: "length vs = 2 ^ L" "length roots_fwd = 2 ^ L" "length roots_inv = 2 ^ L"
    using size(3,4,5) by (simp_all add: L_def)
  have tab: "inverse_tables L (map rt roots_fwd) (map rt roots_inv)" "sc s * 2 ^ L = 1"
    using tables scalar by (simp_all add: L_def)
  let ?zs = "to_rev_pure A roots_fwd L None vs"
  let ?out = "from_rev_pure A roots_inv L (Some s) ?zs"
  have fwd: "transform_to_rev A vs log_n roots_fwd None =
        Inr \<lparr>vals = ?zs, root_index = 2 ^ L, root_reads = fwd_reads L\<rparr>"
    unfolding L(1) using L(2,3) len by (intro transform_to_rev_closed) simp_all
  have bwd: "transform_from_rev A ?zs log_n roots_inv (Some s) =
        Inr \<lparr>vals = ?out, root_index = 2 ^ L - 1, root_reads = inv_reads L L\<rparr>"
    unfolding L(1) using L(2,3) len by (intro transform_from_rev_closed) simp_all
  have v1: "map val ?out =
        from_rev_pure ring_arith (map rt roots_inv) L (Some (sc s)) (map val ?zs)"
    using view L(2) len by (intro view_from_rev_pure) simp_all
  have v2: "map val ?zs = to_rev_pure ring_arith (map rt roots_fwd) L None (map val vs)"
    using view L(2) len by (intro view_to_rev_pure) simp_all
  have "from_rev_pure ring_arith (map rt roots_inv) L (Some (sc s))
               (to_rev_pure ring_arith (map rt roots_fwd) L None (map val vs)) = map val vs"
    using L(2) len(1) tab by (intro ring_round_trip) simp_all
  then have eq: "map val ?out = map val vs" using v1 v2 by simp
  have "inj val \<longrightarrow> ?out = vs"
  proof
    assume "inj val"
    then show "?out = vs" using eq by (simp add: inj_map_eq_map)
  qed
  then show ?thesis using fwd bwd eq by simp
qed

theorem round_trip_witness:
  "ring_view (ring_arith :: (rat, rat, rat) arithmetic) id id id \<and>
   (1::int) \<le> 2 \<and> (2::int) \<le> 63 \<and> length [7, 1, 4, 9 :: rat] = 2 ^ nat 2 \<and>
   length [0, 2, 3, 5 :: rat] = 2 ^ nat 2 \<and> length [0, 1 / 3, 1 / 5, 1 / 2 :: rat] = 2 ^ nat 2 \<and>
   inverse_tables (nat 2) (map id [0, 2, 3, 5 :: rat]) (map id [0, 1 / 3, 1 / 5, 1 / 2]) \<and>
   id (1 / 4 :: rat) * 2 ^ nat 2 = 1 \<and>
   (\<exists>st st'. transform_to_rev ring_arith [7, 1, 4, 9 :: rat] 2 [0, 2, 3, 5] None = Inr st \<and>
      transform_from_rev ring_arith (vals st) 2 [0, 1 / 3, 1 / 5, 1 / 2] (Some (1 / 4)) = Inr st' \<and>
      map id (vals st') = map id [7, 1, 4, 9] \<and> (inj (id :: rat \<Rightarrow> rat) \<longrightarrow> vals st' = [7, 1, 4, 9]))"
proof -
  have v: "ring_view (ring_arith :: (rat, rat, rat) arithmetic) id id id"
    by (simp add: ring_view_def ring_arith_def)
  have t: "inverse_tables (nat 2) (map id [0, 2, 3, 5 :: rat]) (map id [0, 1 / 3, 1 / 5, 1 / 2])"
    by (auto simp: inverse_tables_def inv_cursor_def less_Suc_eq numeral_2_eq_2)
  have s: "id (1 / 4 :: rat) * 2 ^ nat 2 = 1" by simp
  show ?thesis
    using round_trip [where vs = "[7, 1, 4, 9]", OF v _ _ _ _ _ t s] v t
    by simp
qed

text \<open>
  C2, as stated: for every \<open>log_n\<close> and every call, each transform reads the root table at
  exactly the indices \<open>1, \<dots>, n - 1\<close>. For \<open>log_n = 0\<close>, a buffer and a table of one element,
  that is a call that returns without a read. Neither transform returns: the last stage
  runs unconditionally and is undefined at the shift by \<open>-1\<close> that computes its parameters
  (line 135 of \<open>transform_to_rev\<close>, line 204 of \<open>transform_from_rev\<close>), after which nothing
  is promised of the reads.
\<close>

theorem root_table_consumption_one_element_counterexample:
  "map_sum id root_reads (transform_to_rev (lazy_arith 10) [5] 0 [1] None) \<noteq> Inr [] \<and>
   map_sum id root_reads (transform_from_rev (lazy_arith 10) [5] 0 [1] None) \<noteq> Inr []"
  by (simp add: run_simps)

text \<open>
  C2, amended. For \<open>1 \<le> log_n \<le> 63\<close>, a buffer and a root table of at least \<open>n = 2^log_n\<close>
  elements, with or without a scalar, each transform returns and has read the root table at
  the indices \<open>1, 2, \<dots>, n - 1\<close>, in this order, each once, and never at index \<open>0\<close> (the
  third component of an entry of \<open>root_reads\<close> is the index read). The order depends on
  \<open>log_n\<close> only. For \<open>log_n \<le> 0\<close> the call is undefined at the shift by \<open>log_n - 1\<close>.
\<close>

theorem root_table_consumption:
  assumes "sized_call vs log_n roots"
  shows "outcome log_n (\<lambda>st. map (snd \<circ> snd) (root_reads st) = [1..<2 ^ nat log_n])
           (transform_to_rev A vs log_n roots scalar) \<and>
         outcome log_n (\<lambda>st. map (snd \<circ> snd) (root_reads st) = [1..<2 ^ nat log_n])
           (transform_from_rev A vs log_n roots scalar)"
proof
  show "outcome log_n (\<lambda>st. map (snd \<circ> snd) (root_reads st) = [1..<2 ^ nat log_n])
          (transform_to_rev A vs log_n roots scalar)"
    using assms by (rule to_rev_outcome) (simp add: fwd_reads_indices)
  show "outcome log_n (\<lambda>st. map (snd \<circ> snd) (root_reads st) = [1..<2 ^ nat log_n])
          (transform_from_rev A vs log_n roots scalar)"
    using assms by (rule from_rev_outcome) (simp add: inv_reads_indices)
qed

theorem root_table_consumption_witness:
  "sized_call [1, 2, 3, 4 :: int] 2 [0, 1, 1, 1 :: int] \<and>
   outcome 2 (\<lambda>st. map (snd \<circ> snd) (root_reads st) = [1..<2 ^ nat 2])
     (transform_to_rev (lazy_arith 10) [1, 2, 3, 4] 2 [0, 1, 1, 1] (Some 3)) \<and>
   outcome 2 (\<lambda>st. map (snd \<circ> snd) (root_reads st) = [1..<2 ^ nat 2])
     (transform_from_rev (lazy_arith 10) [1, 2, 3, 4] 2 [0, 1, 1, 1] (Some 3))"
  using root_table_consumption [of "[1, 2, 3, 4 :: int]" 2 "[0, 1, 1, 1 :: int]" "lazy_arith 10" "Some 3"]
  by (simp add: sized_call_def)

text \<open>
  C3, as stated: \<open>transform_to_rev\<close> without a scalar computes the stages
  \<open>log_m = 0, \<dots>, log_n - 1\<close>. For \<open>log_n = 0\<close> these are no stages at all and the buffer would be
  returned as it is; the header runs its last stage unconditionally, with \<open>log_m = -1\<close>, and
  is undefined at \<^verbatim>\<open>1 << log_m\<close> (line 135).
\<close>

theorem to_rev_no_stage_counterexample:
  "transform_to_rev (lazy_arith 10) [5] 0 [1] None \<noteq> spec_to_rev (lazy_arith 10) [5] 0 [1]"
  by (simp add: run_simps spec_to_rev_def)

text \<open>
  C3, amended. For every \<open>log_n \<ge> 1\<close>, \<open>transform_to_rev\<close> without a scalar is the worded
  algorithm \<open>spec_to_rev\<close>: same buffer, same reads of the root table, same cursor, and the
  same error where an access or a shift is undefined. \<open>guard\<close> is applied to \<open>u\<close> only.
\<close>

theorem to_rev_refines_spec:
  assumes "1 \<le> log_n"
  shows "transform_to_rev A vs log_n roots None = spec_to_rev A vs log_n roots"
proof -
  have "[0..<nat log_n] = [0..<nat (log_n - 1)] @ [nat (log_n - 1)]"
    using assms by (metis Suc_nat_eq_nat_zadd1 add.commute diff_add_cancel diff_ge_0_iff_ge upt_Suc_append zero_le)
  then have "map int [0..<nat log_n] = map int [0..<nat (log_n - 1)] @ [log_n - 1]"
    using assms by simp
  then show ?thesis
    using to_rev_stages_spec [of 0 A log_n roots]
      dwt_stage_spec [of "butterfly_to A" "spec_to_rev_butterfly A", OF butterfly_at_to]
    by (simp add: transform_to_rev_def spec_to_rev_def for_each_snoc)
qed

theorem to_rev_refines_spec_witness:
  "(1::int) \<le> 2 \<and>
   transform_to_rev (lazy_arith 10) [1, 2, 3, 4] 2 [0, 1, 1, 1] None =
   spec_to_rev (lazy_arith 10) [1, 2, 3, 4] 2 [0, 1, 1, 1]"
  using to_rev_refines_spec [of 2 "lazy_arith 10" "[1, 2, 3, 4]" "[0, 1, 1, 1]"] by simp

text \<open>
  C4. \<open>transform_from_rev\<close> without a scalar is the worded algorithm \<open>spec_from_rev\<close>, for
  every \<open>log_n\<close>, buffer and table: the same buffer and the same reads of the root table, or
  the same error. (The header does not advance the cursor after the last read; the cursor
  is not observed.)
\<close>

theorem from_rev_refines_spec:
  "observed (transform_from_rev A vs log_n roots None) = observed (spec_from_rev A vs log_n roots)"
proof -
  let ?init = "\<lparr>vals = vs, root_index = 1, root_reads = []\<rparr>"
  have loop: "from_rev_stages A log_n roots (log_n - 1) ?init =
        for_each (map int (rev [1..<nat log_n])) (spec_stage (spec_from_rev_butterfly A) log_n roots) ?init"
    using from_rev_stages_spec [of A log_n roots "log_n - 1" ?init] by simp
  have last: "observed (dwt_stage roots log_n 0 False (butterfly_from A) st) =
        observed (spec_stage (spec_from_rev_butterfly A) log_n roots 0 st)" for st
    using last_stage_observed [of roots log_n "butterfly_from A" st]
      dwt_stage_spec [of "butterfly_from A" "spec_from_rev_butterfly A", OF butterfly_at_from]
    by simp
  show ?thesis
    unfolding transform_from_rev_def spec_from_rev_def loop observed_and_then
    by (simp add: last)
qed

text \<open>
  C5, as stated: for every arithmetic, \<open>transform_from_rev\<close> with the scalar \<open>s\<close> gives the same
  buffer as \<open>transform_from_rev\<close> without a scalar followed by \<open>mul_scalar\<close> of every element
  by \<open>s\<close>. Line 193 guards \<open>u\<close> when a scalar is given and line 211 does not: with
  \<open>guard a = a mod 10\<close>, the buffer \<open>[12, 3]\<close>, the root \<open>1\<close> and the scalar \<open>1\<close> the fused call
  returns \<open>[5, -1]\<close> and the plain call followed by the scaling \<open>[5, 9]\<close>.
\<close>

theorem from_rev_scalar_fusion_counterexample:
  "transform_from_rev (lazy_arith 10) [12, 3] 1 [0, 1] (Some 1) \<noteq>
   map_sum id (scale_values (lazy_arith 10) 1) (transform_from_rev (lazy_arith 10) [12, 3] 1 [0, 1] None)"
  by (simp add: run_simps scale_values_def)

text \<open>
  C5, amended. If \<open>mul_root a (mul_root_scalar r s) = mul_scalar (mul_root a r) s\<close> and
  \<open>guard\<close> returns its argument, then \<open>transform_from_rev\<close> with the scalar \<open>s\<close> gives the same
  buffer as \<open>transform_from_rev\<close> without a scalar followed by \<open>mul_scalar\<close> of every element
  by \<open>s\<close> (and the same reads of the table, or the same error).
\<close>

theorem from_rev_scalar_fusion:
  assumes fusion: "\<And>a r. mul_root A a (mul_root_scalar A r s) = mul_scalar A (mul_root A a r) s"
    and guard_id: "\<And>a. guard A a = a"
    and size: "log_n \<le> 63" "length vs = 2 ^ nat log_n" "2 ^ nat log_n \<le> length roots"
  shows "transform_from_rev A vs log_n roots (Some s) =
         map_sum id (scale_values A s) (transform_from_rev A vs log_n roots None)"
  using size(1)
proof (cases rule: int_nat_cases)
  case nonpositive
  then show ?thesis by (simp add: from_rev_nonpositive)
next
  case (positive L)
  have "from_rev_pure A roots L (Some s) vs =
        map (\<lambda>a. mul_scalar A a s) (from_rev_pure A roots L None vs)"
    unfolding from_rev_pure_def inv_stage_pure_def option.case
    using positive size(2)
    by (intro stage_pure_scaled butterfly_from_scaled_fused assms) (simp_all add: pow2_pred)
  then show ?thesis
    using positive size
    by (simp add: transform_from_rev_closed scale_values_def)
qed

theorem from_rev_scalar_fusion_witness:
  "(\<forall>a r. mul_root ring_arith a (mul_root_scalar ring_arith r 3) =
          mul_scalar ring_arith (mul_root ring_arith a r) (3::int)) \<and>
   (\<forall>a::int. guard ring_arith a = a) \<and>
   (2::int) \<le> 63 \<and> length [11, 2, 13, 4 :: int] = 2 ^ nat 2 \<and> 2 ^ nat 2 \<le> length [0, 2, 3, 5 :: int] \<and>
   transform_from_rev ring_arith [11, 2, 13, 4 :: int] 2 [0, 2, 3, 5] (Some 3) =
   map_sum id (scale_values ring_arith 3)
     (transform_from_rev ring_arith [11, 2, 13, 4] 2 [0, 2, 3, 5] None)"
proof -
  have f: "\<And>a r. mul_root ring_arith a (mul_root_scalar ring_arith r 3) =
          mul_scalar ring_arith (mul_root ring_arith a r) (3::int)"
    by (simp add: ring_arith_def)
  have g: "\<And>a::int. guard ring_arith a = a"
    by (simp add: ring_arith_def)
  have "transform_from_rev ring_arith [11, 2, 13, 4 :: int] 2 [0, 2, 3, 5] (Some 3) =
        map_sum id (scale_values ring_arith 3)
          (transform_from_rev ring_arith [11, 2, 13, 4] 2 [0, 2, 3, 5] None)"
    by (rule from_rev_scalar_fusion [OF f g]) simp_all
  then show ?thesis using f g by simp
qed

text \<open>
  C6. If \<open>mul_root a (mul_root_scalar r s) = mul_scalar (mul_root a r) s\<close> and \<open>mul_scalar\<close>
  by \<open>s\<close> distributes over \<open>add\<close> and \<open>sub\<close>, then \<open>transform_to_rev\<close> with the scalar \<open>s\<close>
  gives what \<open>transform_to_rev\<close> without a scalar followed by \<open>mul_scalar\<close> of every element
  by \<open>s\<close> gives: the same buffer, element for element, the same reads of the table, or the
  same error. Nothing is asked of \<open>guard\<close>. The fused call differs from the plain one only in
  the butterfly of its last stage, \<open>butterfly_to_scaled\<close>: there is no pass over the buffer.
\<close>

theorem to_rev_scalar_fusion:
  assumes fusion: "\<And>a r. mul_root A a (mul_root_scalar A r s) = mul_scalar A (mul_root A a r) s"
    and dist_add: "\<And>a b. mul_scalar A (add A a b) s = add A (mul_scalar A a s) (mul_scalar A b s)"
    and dist_sub: "\<And>a b. mul_scalar A (sub A a b) s = sub A (mul_scalar A a s) (mul_scalar A b s)"
    and size: "log_n \<le> 63" "length vs = 2 ^ nat log_n" "2 ^ nat log_n \<le> length roots"
  shows "transform_to_rev A vs log_n roots (Some s) =
         map_sum id (scale_values A s) (transform_to_rev A vs log_n roots None)"
  using size(1)
proof (cases rule: int_nat_cases)
  case nonpositive
  then show ?thesis by (simp add: to_rev_nonpositive)
next
  case (positive L)
  have "to_rev_pure A roots L (Some s) vs =
        map (\<lambda>a. mul_scalar A a s) (to_rev_pure A roots L None vs)"
    unfolding to_rev_pure_def fwd_stage_pure_def option.case
    using positive size(2)
    by (intro stage_pure_scaled butterfly_to_scaled_fused assms) (simp_all add: pow2_pred)
  then show ?thesis
    using positive size
    by (simp add: transform_to_rev_closed scale_values_def)
qed

theorem to_rev_scalar_fusion_witness:
  "(\<forall>a r. mul_root (lazy_arith 10) a (mul_root_scalar (lazy_arith 10) r 3) =
          mul_scalar (lazy_arith 10) (mul_root (lazy_arith 10) a r) 3) \<and>
   (\<forall>a b. mul_scalar (lazy_arith 10) (add (lazy_arith 10) a b) 3 =
          add (lazy_arith 10) (mul_scalar (lazy_arith 10) a 3) (mul_scalar (lazy_arith 10) b 3)) \<and>
   (\<forall>a b. mul_scalar (lazy_arith 10) (sub (lazy_arith 10) a b) 3 =
          sub (lazy_arith 10) (mul_scalar (lazy_arith 10) a 3) (mul_scalar (lazy_arith 10) b 3)) \<and>
   (2::int) \<le> 63 \<and> length [11, 2, 13, 4 :: int] = 2 ^ nat 2 \<and> 2 ^ nat 2 \<le> length [0, 2, 3, 5 :: int] \<and>
   transform_to_rev (lazy_arith 10) [11, 2, 13, 4] 2 [0, 2, 3, 5] (Some 3) =
   map_sum id (scale_values (lazy_arith 10) 3)
     (transform_to_rev (lazy_arith 10) [11, 2, 13, 4] 2 [0, 2, 3, 5] None)"
proof -
  have f: "\<And>a r. mul_root (lazy_arith 10) a (mul_root_scalar (lazy_arith 10) r 3) =
          mul_scalar (lazy_arith 10) (mul_root (lazy_arith 10) a r) 3"
    by (simp add: lazy_arith_def)
  have da: "\<And>a b. mul_scalar (lazy_arith 10) (add (lazy_arith 10) a b) 3 =
          add (lazy_arith 10) (mul_scalar (lazy_arith 10) a 3) (mul_scalar (lazy_arith 10) b 3)"
    by (simp add: lazy_arith_def)
  have ds: "\<And>a b. mul_scalar (lazy_arith 10) (sub (lazy_arith 10) a b) 3 =
          sub (lazy_arith 10) (mul_scalar (lazy_arith 10) a 3) (mul_scalar (lazy_arith 10) b 3)"
    by (simp add: lazy_arith_def)
  have "transform_to_rev (lazy_arith 10) [11, 2, 13, 4] 2 [0, 2, 3, 5] (Some 3) =
        map_sum id (scale_values (lazy_arith 10) 3)
          (transform_to_rev (lazy_arith 10) [11, 2, 13, 4] 2 [0, 2, 3, 5] None)"
    by (rule to_rev_scalar_fusion [OF f da ds]) simp_all
  then show ?thesis using f da ds by simp
qed

text \<open>
  C7, as stated: for \<open>log_n = 1\<close> the buffer \<open>[v0, v1]\<close> becomes
  \<open>[add v0 (mul_root v1 r1), sub v0 (mul_root v1 r1)]\<close>. This fails where \<open>guard\<close> changes
  \<open>v0\<close>: with \<open>guard a = a mod 10\<close> the buffer \<open>[12, 1]\<close> and the root \<open>1\<close> give \<open>[3, 1]\<close>,
  not \<open>[13, 11]\<close>.
\<close>

theorem to_rev_two_elements_unguarded_counterexample:
  "map_sum id vals (transform_to_rev (lazy_arith 10) [12, 1] 1 [0, 1] None) \<noteq>
     Inr [add (lazy_arith 10) 12 (mul_root (lazy_arith 10) 1 1),
          sub (lazy_arith 10) 12 (mul_root (lazy_arith 10) 1 1)]"
  by (simp add: run_simps)

text \<open>
  C7, amended. For \<open>log_n = 1\<close> and no scalar, \<open>transform_to_rev\<close> on the buffer \<open>[v0, v1]\<close>
  with the root table \<open>[r0, r1]\<close> returns with the buffer
  \<open>[add (guard v0) (mul_root v1 r1), sub (guard v0) (mul_root v1 r1)]\<close>: \<open>v0\<close> passes through
  \<open>guard\<close>, as line 143 reads it, and \<open>r0\<close> is not read.
\<close>

theorem to_rev_two_elements:
  "map_sum id vals (transform_to_rev A [v0, v1] 1 [r0, r1] None) =
     Inr [add A (guard A v0) (mul_root A v1 r1), sub A (guard A v0) (mul_root A v1 r1)]"
  by (simp add: run_simps)

text \<open>
  C8, as stated: for every call, both transforms change the buffer at indices below
  \<open>2^log_n\<close> only and leave its length as it was. For \<open>log_n = 0\<close> and a buffer of one element
  that is a call that returns a buffer of one element. Neither transform returns: each is
  undefined at the shift by \<open>-1\<close> of its last stage (lines 135 and 204), after which nothing
  is promised of the buffer.
\<close>

theorem transforms_frame_one_element_counterexample:
  "map_sum id (length \<circ> vals) (transform_to_rev (lazy_arith 10) [5] 0 [1] None) \<noteq> Inr 1 \<and>
   map_sum id (length \<circ> vals) (transform_from_rev (lazy_arith 10) [5] 0 [1] None) \<noteq> Inr 1"
  by (simp add: run_simps)

text \<open>
  C8, amended. For \<open>1 \<le> log_n \<le> 63\<close>, a buffer and a root table of at least \<open>2^log_n\<close>
  elements, with or without a scalar, both transforms return a buffer of the length they
  were given, and what lies at the indices from \<open>2^log_n\<close> on is unchanged: only indices
  below \<open>2^log_n\<close> are written. The root table, the scalar and the arithmetic are arguments
  of the model that no result contains, as the \<^verbatim>\<open>const\<close> parameters and the
  \<^verbatim>\<open>const\<close> member functions of the header: a call cannot change them. For
  \<open>log_n \<le> 0\<close> the call is undefined at the shift by \<open>log_n - 1\<close>.
\<close>

theorem transforms_frame:
  assumes "sized_call vs log_n roots"
  shows "outcome log_n
           (\<lambda>st. length (vals st) = length vs \<and>
                 drop (2 ^ nat log_n) (vals st) = drop (2 ^ nat log_n) vs)
           (transform_to_rev A vs log_n roots scalar) \<and>
         outcome log_n
           (\<lambda>st. length (vals st) = length vs \<and>
                 drop (2 ^ nat log_n) (vals st) = drop (2 ^ nat log_n) vs)
           (transform_from_rev A vs log_n roots scalar)"
proof
  show "outcome log_n
          (\<lambda>st. length (vals st) = length vs \<and>
                drop (2 ^ nat log_n) (vals st) = drop (2 ^ nat log_n) vs)
          (transform_to_rev A vs log_n roots scalar)"
    using assms by (rule to_rev_outcome) (simp add: to_rev_pure_frame)
  show "outcome log_n
          (\<lambda>st. length (vals st) = length vs \<and>
                drop (2 ^ nat log_n) (vals st) = drop (2 ^ nat log_n) vs)
          (transform_from_rev A vs log_n roots scalar)"
    using assms by (rule from_rev_outcome) (simp add: from_rev_pure_frame)
qed

theorem transforms_frame_witness:
  "sized_call [1, 2, 3, 4, 5, 6 :: int] 2 [0, 1, 1, 1 :: int] \<and>
   outcome 2
     (\<lambda>st. length (vals st) = length [1, 2, 3, 4, 5, 6 :: int] \<and>
           drop (2 ^ nat 2) (vals st) = drop (2 ^ nat 2) [1, 2, 3, 4, 5, 6])
     (transform_to_rev (lazy_arith 10) [1, 2, 3, 4, 5, 6] 2 [0, 1, 1, 1] (Some 3)) \<and>
   outcome 2
     (\<lambda>st. length (vals st) = length [1, 2, 3, 4, 5, 6 :: int] \<and>
           drop (2 ^ nat 2) (vals st) = drop (2 ^ nat 2) [1, 2, 3, 4, 5, 6])
     (transform_from_rev (lazy_arith 10) [1, 2, 3, 4, 5, 6] 2 [0, 1, 1, 1] (Some 3))"
  using transforms_frame [of "[1, 2, 3, 4, 5, 6 :: int]" 2 "[0, 1, 1, 1 :: int]" "lazy_arith 10" "Some 3"]
  by (simp add: sized_call_def)

text \<open>
  C9, as stated: for \<open>log_n = 0\<close>, \<open>transform_from_rev\<close> reads \<^verbatim>\<open>roots[1]\<close> past the end of the
  table of one element, and \<open>transform_to_rev\<close> shifts by \<open>log_n - log_m - 1 = -1\<close>. In
  \<open>transform_from_rev\<close> the shift by \<open>log_n - log_m - 1 = -1\<close> of line 204 comes before the
  read of line 207, so the call is undefined before it reads; in \<open>transform_to_rev\<close>, where
  \<open>log_m = log_n - 1 = -1\<close>, the amount \<open>log_n - log_m - 1\<close> is \<open>0\<close> and that shift is defined:
  the negative shift there is \<^verbatim>\<open>1 << log_m\<close> of line 135.
\<close>

theorem one_element_from_rev_counterexample:
  "transform_from_rev (lazy_arith 10) [5] 0 [1] None \<noteq> Inl (RootIndex 1) \<and>
   shl 1 (0 - (0 - 1) - 1) = Inr 1"
  by (simp add: run_simps)

text \<open>
  C9, amended. For \<open>1 \<le> log_n \<le> 63\<close>, a buffer of exactly \<open>2^log_n\<close> values and a table of
  exactly \<open>2^log_n\<close> roots, both transforms return: no access to the buffer or the table is
  out of range, and the root indices read are those of \<open>1 .. 2^log_n - 1\<close>. For \<open>log_n \<le> 0\<close>
  both transforms stop at a shift by \<open>log_n - 1\<close>, which is negative, before any access:
  neither is a no-op on a buffer of one element.
\<close>

theorem accesses_in_bounds:
  assumes "log_n \<le> 63" "length vs = 2 ^ nat log_n" "length roots = 2 ^ nat log_n"
  shows "outcome log_n (\<lambda>st. set (map (snd \<circ> snd) (root_reads st)) = {1..<2 ^ nat log_n})
           (transform_to_rev A vs log_n roots scalar) \<and>
         outcome log_n (\<lambda>st. set (map (snd \<circ> snd) (root_reads st)) = {1..<2 ^ nat log_n})
           (transform_from_rev A vs log_n roots scalar)"
proof -
  have s: "sized_call vs log_n roots" using assms by (simp add: sized_call_def)
  have "outcome log_n (\<lambda>st. set (map (snd \<circ> snd) (root_reads st)) = {1..<2 ^ nat log_n})
          (transform_to_rev A vs log_n roots scalar)"
    using s by (rule to_rev_outcome) (simp add: fwd_reads_indices)
  moreover have "outcome log_n (\<lambda>st. set (map (snd \<circ> snd) (root_reads st)) = {1..<2 ^ nat log_n})
          (transform_from_rev A vs log_n roots scalar)"
    using s by (rule from_rev_outcome) (simp add: inv_reads_indices)
  ultimately show ?thesis by simp
qed

theorem accesses_in_bounds_witness:
  "(2::int) \<le> 63 \<and> length [1, 2, 3, 4 :: int] = 2 ^ nat 2 \<and> length [0, 1, 1, 1 :: int] = 2 ^ nat 2 \<and>
   outcome 2 (\<lambda>st. set (map (snd \<circ> snd) (root_reads st)) = {1..<2 ^ nat 2})
     (transform_to_rev (lazy_arith 10) [1, 2, 3, 4] 2 [0, 1, 1, 1] None) \<and>
   outcome 2 (\<lambda>st. set (map (snd \<circ> snd) (root_reads st)) = {1..<2 ^ nat 2})
     (transform_from_rev (lazy_arith 10) [1, 2, 3, 4] 2 [0, 1, 1, 1] None) \<and>
   (0::int) \<le> 63 \<and> length [5 :: int] = 2 ^ nat 0 \<and> length [1 :: int] = 2 ^ nat 0 \<and>
   outcome 0 (\<lambda>st. set (map (snd \<circ> snd) (root_reads st)) = {1..<2 ^ nat 0})
     (transform_to_rev (lazy_arith 10) [5] 0 [1] None) \<and>
   outcome 0 (\<lambda>st. set (map (snd \<circ> snd) (root_reads st)) = {1..<2 ^ nat 0})
     (transform_from_rev (lazy_arith 10) [5] 0 [1] None)"
  using accesses_in_bounds [of 2 "[1, 2, 3, 4 :: int]" "[0, 1, 1, 1 :: int]" "lazy_arith 10" None]
    accesses_in_bounds [of 0 "[5 :: int]" "[1 :: int]" "lazy_arith 10" None]
  by simp

text \<open>
  C10. In \<open>transform_to_rev\<close>, with or without a scalar, the reads of the root table are, in
  order: for each stage \<open>k = 0, \<dots>, log_n - 1\<close> and each group \<open>i = 0, \<dots>, 2^k - 1\<close> of it,
  one read at the cursor value \<open>2^k + i\<close>. So group \<open>i\<close> of stage \<open>log_m\<close> works with
  \<^verbatim>\<open>roots[2^log_m + i]\<close>, in the last stage as in the others.
\<close>

theorem root_cursor_invariant:
  assumes "sized_call vs log_n roots"
  shows "outcome log_n
           (\<lambda>st. root_reads st =
              concat (map (\<lambda>k. map (\<lambda>i. (int k, i, 2 ^ k + i)) [0..<2 ^ k]) [0..<nat log_n]))
           (transform_to_rev A vs log_n roots scalar)"
  using assms by (rule to_rev_outcome) (simp add: fwd_reads_concat)

theorem root_cursor_invariant_witness:
  "sized_call [1, 2, 3, 4 :: int] 2 [0, 1, 1, 1 :: int] \<and>
   outcome 2
     (\<lambda>st. root_reads st =
        concat (map (\<lambda>k. map (\<lambda>i. (int k, i, 2 ^ k + i)) [0..<2 ^ k]) [0..<nat 2]))
     (transform_to_rev (lazy_arith 10) [1, 2, 3, 4] 2 [0, 1, 1, 1] None)"
  using root_cursor_invariant [of "[1, 2, 3, 4 :: int]" 2 "[0, 1, 1, 1 :: int]" "lazy_arith 10" None]
  by (simp add: sized_call_def)

end
